theory Spec2Isabelle
  imports Main "HOL-Library.Char_ord" "HOL-Library.List_Lexorder" "HOL-Library.Sublist"
begin

section \<open>Python values used by the corpus tools\<close>

text \<open>
  Python strings are modelled as \<^typ>\<open>string\<close>; a \<^typ>\<open>char\<close> stands for a code point
  in the range 0..255. Strings are compared as Python compares them: lexicographically
  by code point (\<open>Char_ord\<close> and \<open>List_Lexorder\<close>). Python integers are \<^typ>\<open>int\<close>.
  Every exception that the modelled functions can raise is a value of \<open>error\<close>;
  \<open>OSError\<close> stands for a failed \<open>open\<close> (FileNotFoundError, PermissionError, IOError) and
  \<open>SystemExit\<close> for a call of \<open>exit(1)\<close>.
\<close>

datatype error = IndexError | KeyError | UnboundLocalError | OSError | SystemExit
  | ValueError | ZeroDivisionError

text \<open>\<open>str.isspace\<close> on the code points below 256.\<close>

definition isspace :: "char \<Rightarrow> bool" where
  "isspace c = (c \<in> set [CHR 0x09, CHR 0x0A, CHR 0x0B, CHR 0x0C, CHR 0x0D,
                          CHR 0x1C, CHR 0x1D, CHR 0x1E, CHR 0x1F, CHR 0x20,
                          CHR 0x85, CHR 0xA0])"

text \<open>\<open>s.strip()\<close>: leading and trailing whitespace removed.\<close>

definition strip :: "string \<Rightarrow> string" where
  "strip s = rev (dropWhile isspace (rev (dropWhile isspace s)))"

text \<open>\<open>s.split(sep)\<close> for a separator of one character: cut at every occurrence of
  the separator; the result is never empty, and two adjacent separators give an empty
  field.\<close>

fun split_on :: "char \<Rightarrow> string \<Rightarrow> string list" where
  "split_on sep [] = [[]]"
| "split_on sep (c # cs) =
     (if c = sep then [] # split_on sep cs
      else (c # hd (split_on sep cs)) # tl (split_on sep cs))"

text \<open>\<open>p in s\<close> for strings: \<open>p\<close> occurs in \<open>s\<close> as a contiguous substring.\<close>

fun str_in :: "string \<Rightarrow> string \<Rightarrow> bool" where
  "str_in p [] = (p = [])"
| "str_in p (c # cs) = (prefix p (c # cs) \<or> str_in p cs)"

text \<open>\<open>str.lower\<close> on the code points below 256: the letters A to Z and the accented
  capitals (all of 192..222 but the multiplication sign) move up by 32.\<close>

definition lower_char :: "char \<Rightarrow> char" where
  "lower_char c =
     (let n = (of_char c :: nat)
      in if (65 \<le> n \<and> n \<le> 90) \<or> (192 \<le> n \<and> n \<le> 222 \<and> n \<noteq> 215)
         then char_of (n + 32) else c)"

definition lower :: "string \<Rightarrow> string" where
  "lower s = map lower_char s"

text \<open>\<open>sep.join(xs)\<close>.\<close>

fun join :: "string \<Rightarrow> string list \<Rightarrow> string" where
  "join sep [] = []"
| "join sep [x] = x"
| "join sep (x # y # ys) = x @ sep @ join sep (y # ys)"

text \<open>\<open>s.split()\<close> without an argument: the maximal runs of characters that are not
  whitespace.\<close>

fun split_where :: "(char \<Rightarrow> bool) \<Rightarrow> string \<Rightarrow> string list" where
  "split_where P [] = [[]]"
| "split_where P (c # cs) =
     (if P c then [] # split_where P cs
      else (c # hd (split_where P cs)) # tl (split_where P cs))"

definition split_ws :: "string \<Rightarrow> string list" where
  "split_ws s = filter (\<lambda>w. w \<noteq> []) (split_where isspace s)"

text \<open>\<open>"%i" % n\<close> and \<open>'{:08d}'.format(n)\<close>: decimal digits, a minus sign for a negative
  number, and for the second zeros after the sign up to a width of eight.\<close>

function digits_of :: "nat \<Rightarrow> string" where
  "digits_of n = (if n < 10 then [''0123456789'' ! n]
                  else digits_of (n div 10) @ [''0123456789'' ! (n mod 10)])"
  by pat_completeness auto
termination
  by (relation "measure id") auto

declare digits_of.simps [simp del]

definition str_int :: "int \<Rightarrow> string" where
  "str_int n = (if n < 0 then CHR ''-'' # digits_of (nat (- n)) else digits_of (nat n))"

definition zfill :: "nat \<Rightarrow> string \<Rightarrow> string" where
  "zfill w s = replicate (w - length s) (CHR ''0'') @ s"

definition format08 :: "int \<Rightarrow> string" where
  "format08 n = (if n < 0 then CHR ''-'' # zfill 7 (digits_of (nat (- n)))
                 else zfill 8 (digits_of (nat n)))"

text \<open>
  Two library functions are parameters of the models that call them: \<open>py_int\<close> stands
  for \<open>int(s)\<close> (\<open>None\<close> when it raises ValueError) and \<open>findall\<close> for
  \<open>regex.findall(r"[\w-]+", s, flags=regex.VERSION1)\<close>.
\<close>

text \<open>For examples, \<open>decimal\<close> reads a string of decimal digits as \<open>int\<close> does, and fails
  on every other string.\<close>

definition decimal :: "string \<Rightarrow> int option" where
  "decimal s = (if s \<noteq> [] \<and> list_all (\<lambda>c. c \<in> set ''0123456789'') s
               then Some (foldl (\<lambda>a c. 10 * a + (int (of_char c) - 48)) 0 s) else None)"

section \<open>build\_topic\_model.py: the vocabulary and document pass\<close>

text \<open>
  \<open>rxNum = re.compile("[\+\-]?[0-9\.\,]\%?")\<close> and \<open>rxNum.match(sToken)\<close>: the match is
  anchored at the start of the token only, the character class is matched once, and the
  percent sign is optional. A match exists iff the token starts with a character of the
  class, or with a sign followed by a character of the class.
\<close>

definition rxNum_class :: "char \<Rightarrow> bool" where
  "rxNum_class c = (c \<in> set ''0123456789.,'')"

definition rxNum_sign :: "char \<Rightarrow> bool" where
  "rxNum_sign c = (c = CHR ''+'' \<or> c = CHR ''-'')"

fun rxNum_match :: "string \<Rightarrow> bool" where
  "rxNum_match [] = False"
| "rxNum_match [c] = rxNum_class c"
| "rxNum_match (c # d # cs) = ((rxNum_sign c \<and> rxNum_class d) \<or> rxNum_class c)"

text \<open>
  The state of \<open>get_words_and_documents\<close>: the set \<open>Words\<close>, the list \<open>Docs\<close>, the loop
  variable \<open>iAbstract\<close> (\<open>None\<close> while it is unbound) and \<open>iAbstractsPreviousFiles\<close>.
  The messages to the log and to \<open>sys.stderr\<close> are left out: the logging coroutine and
  the clock it reads take no part in what the function returns.
\<close>

record gwd_state =
  Words :: "string set"
  Docs :: "string list"
  iAbstract :: "int option"
  iAbstractsPreviousFiles :: int

text \<open>
  The loop \<open>for sToken in sorted(NewWords)\<close>. The tests are evaluated left to right:
  \<open>'--' in sToken\<close> first, then \<open>sToken[0] == '-'\<close>, which raises IndexError on the
  empty token, then the numeric pattern, then the length.
\<close>

fun drop_tokens :: "int \<Rightarrow> string list \<Rightarrow> string set \<Rightarrow> error + string set" where
  "drop_tokens iMinWordLength [] NewWords = Inr NewWords"
| "drop_tokens iMinWordLength (sToken # rest) NewWords =
     (if str_in ''--'' sToken then drop_tokens iMinWordLength rest (NewWords - {sToken})
      else if sToken = [] then Inl IndexError
      else if hd sToken = CHR ''-'' \<or> rxNum_match sToken
              \<or> int (length sToken) < iMinWordLength
      then drop_tokens iMinWordLength rest (NewWords - {sToken})
      else drop_tokens iMinWordLength rest NewWords)"

text \<open>The body of the inner loop for one line \<open>sAbstract\<close> that is within the cap.\<close>

definition gwd_line :: "int \<Rightarrow> string set \<Rightarrow> string \<Rightarrow> gwd_state \<Rightarrow> error + gwd_state" where
  "gwd_line iMinWordLength StopWords sAbstract st =
     (let Values = split_on (CHR '' '') (strip sAbstract);
          st1 = st\<lparr>Docs := Docs st @ [hd Values]\<rparr>;
          NewWords = set (tl Values) - StopWords
      in case drop_tokens iMinWordLength (sorted_list_of_set NewWords) NewWords of
           Inl e \<Rightarrow> Inl e
         | Inr NewWords' \<Rightarrow> Inr (st1\<lparr>Words := Words st1 \<union> NewWords'\<rparr>))"

text \<open>
  \<open>for iAbstract, sAbstract in enumerate(strFile, start=iAbstractsPreviousFiles)\<close>:
  the index is bound before the test \<open>iAbstract > iMaxAbstracts\<close>, which leaves the loop.
\<close>

fun gwd_lines :: "int \<Rightarrow> int \<Rightarrow> string set \<Rightarrow> int \<Rightarrow> string list \<Rightarrow> gwd_state
                    \<Rightarrow> error + gwd_state" where
  "gwd_lines iMaxAbstracts iMinWordLength StopWords i [] st = Inr st"
| "gwd_lines iMaxAbstracts iMinWordLength StopWords i (sAbstract # rest) st =
     (if i > iMaxAbstracts then Inr (st\<lparr>iAbstract := Some i\<rparr>)
      else case gwd_line iMinWordLength StopWords sAbstract (st\<lparr>iAbstract := Some i\<rparr>) of
             Inl e \<Rightarrow> Inl e
           | Inr st' \<Rightarrow> gwd_lines iMaxAbstracts iMinWordLength StopWords (i + 1) rest st')"

text \<open>
  The outer loop over \<open>PathList\<close>. A file system maps a path to the lines that iterating
  over the open file yields, or to \<open>None\<close> when the file cannot be opened; that failure is
  caught and ends in \<open>exit(1)\<close>. After the inner loop \<open>iAbstractsPreviousFiles = iAbstract\<close>
  reads the loop variable, which is unbound when no file has had a line so far.
\<close>

type_synonym filesystem = "string \<rightharpoonup> string list"

fun gwd_files :: "filesystem \<Rightarrow> int \<Rightarrow> int \<Rightarrow> string set \<Rightarrow> string list \<Rightarrow> gwd_state
                    \<Rightarrow> error + gwd_state" where
  "gwd_files fs iMaxAbstracts iMinWordLength StopWords [] st = Inr st"
| "gwd_files fs iMaxAbstracts iMinWordLength StopWords (sFileName # rest) st =
     (if iAbstractsPreviousFiles st > iMaxAbstracts then Inr st
      else case fs sFileName of
             None \<Rightarrow> Inl SystemExit
           | Some strFile \<Rightarrow>
               (case gwd_lines iMaxAbstracts iMinWordLength StopWords
                       (iAbstractsPreviousFiles st) strFile st of
                  Inl e \<Rightarrow> Inl e
                | Inr st' \<Rightarrow>
                    (case iAbstract st' of
                       None \<Rightarrow> Inl UnboundLocalError
                     | Some i \<Rightarrow>
                         gwd_files fs iMaxAbstracts iMinWordLength StopWords rest
                           (st'\<lparr>iAbstractsPreviousFiles := i\<rparr>))))"

definition get_words_and_documents ::
  "filesystem \<Rightarrow> string list \<Rightarrow> int \<Rightarrow> int \<Rightarrow> string set \<Rightarrow> error + (string list \<times> string list)" where
  "get_words_and_documents fs PathList iMaxAbstracts iMinWordLength StopWords =
     (case gwd_files fs iMaxAbstracts iMinWordLength StopWords PathList
             \<lparr>Words = {}, Docs = [], iAbstract = None, iAbstractsPreviousFiles = 0\<rparr> of
        Inl e \<Rightarrow> Inl e
      | Inr st \<Rightarrow> Inr (sorted_list_of_set (Words st), Docs st))"

section \<open>build\_topic\_model.py: the matrix pass\<close>

text \<open>
  \<open>sparse.lil_matrix((len(WordsInCorpus), len(Docs)), dtype=int)\<close>: a matrix of the given
  shape whose cells are all zero. Assigning to a cell outside the shape raises
  IndexError. \<open>tocsc()\<close> changes the storage format and no cell, so the result of
  \<open>build_matrix\<close> is the matrix itself.
\<close>

record lil_matrix =
  nrows :: nat
  ncols :: nat
  cells :: "nat \<times> nat \<Rightarrow> int"

definition new_lil_matrix :: "nat \<Rightarrow> nat \<Rightarrow> lil_matrix" where
  "new_lil_matrix r c = \<lparr>nrows = r, ncols = c, cells = (\<lambda>_. 0)\<rparr>"

definition setitem :: "lil_matrix \<Rightarrow> nat \<Rightarrow> nat \<Rightarrow> int \<Rightarrow> error + lil_matrix" where
  "setitem M i j v =
     (if i < nrows M \<and> j < ncols M then Inr (M\<lparr>cells := (cells M)((i, j) := v)\<rparr>)
      else Inl IndexError)"

text \<open>\<open>{x: i for i, x in enumerate(xs)}\<close>: a later occurrence of a key overwrites an
  earlier one.\<close>

definition index_of :: "string list \<Rightarrow> (string \<rightharpoonup> nat)" where
  "index_of xs = fold (\<lambda>(i, x) m. m(x \<mapsto> i)) (enumerate 0 xs) Map.empty"

text \<open>The keys of \<open>Counter(xs)\<close> in the order of iteration: each element once, at its
  first occurrence.\<close>

fun counter_keys :: "string list \<Rightarrow> string list" where
  "counter_keys [] = []"
| "counter_keys (x # xs) = x # removeAll x (counter_keys xs)"

record bm_state =
  matrixWordDoc :: lil_matrix
  bm_iAbstract :: "int option"
  bm_iAbstractsPreviousFiles :: int

text \<open>
  \<open>for sWordType in WordCounts: matrixWordDoc[WordIndex[sWordType],
  DocIndex[TokensInAbstract[0]]] = WordCounts[sWordType]\<close>, where \<open>counted\<close> is the list
  the counter was built from. A key that a dictionary lacks raises KeyError.
\<close>

fun bm_cells :: "(string \<rightharpoonup> nat) \<Rightarrow> (string \<rightharpoonup> nat) \<Rightarrow> string \<Rightarrow> string list \<Rightarrow> string list
                   \<Rightarrow> lil_matrix \<Rightarrow> error + lil_matrix" where
  "bm_cells WordIndex DocIndex sDocID counted [] M = Inr M"
| "bm_cells WordIndex DocIndex sDocID counted (sWordType # rest) M =
     (case WordIndex sWordType of
        None \<Rightarrow> Inl KeyError
      | Some iWord \<Rightarrow>
          (case DocIndex sDocID of
             None \<Rightarrow> Inl KeyError
           | Some iDoc \<Rightarrow>
               (case setitem M iWord iDoc (int (count_list counted sWordType)) of
                  Inl e \<Rightarrow> Inl e
                | Inr M' \<Rightarrow> bm_cells WordIndex DocIndex sDocID counted rest M')))"

definition bm_line :: "(string \<rightharpoonup> nat) \<Rightarrow> (string \<rightharpoonup> nat) \<Rightarrow> string \<Rightarrow> lil_matrix
                         \<Rightarrow> error + lil_matrix" where
  "bm_line WordIndex DocIndex sAbstract M =
     (let TokensInAbstract = split_on (CHR '' '') (strip sAbstract);
          counted = filter (\<lambda>sWordToken. WordIndex sWordToken \<noteq> None) (tl TokensInAbstract)
      in bm_cells WordIndex DocIndex (hd TokensInAbstract) counted (counter_keys counted) M)"

fun bm_lines :: "int \<Rightarrow> (string \<rightharpoonup> nat) \<Rightarrow> (string \<rightharpoonup> nat) \<Rightarrow> int \<Rightarrow> string list \<Rightarrow> bm_state
                   \<Rightarrow> error + bm_state" where
  "bm_lines iMaxAbstracts WordIndex DocIndex i [] st = Inr st"
| "bm_lines iMaxAbstracts WordIndex DocIndex i (sAbstract # rest) st =
     (if i > iMaxAbstracts then Inr (st\<lparr>bm_iAbstract := Some i\<rparr>)
      else case bm_line WordIndex DocIndex sAbstract (matrixWordDoc st) of
             Inl e \<Rightarrow> Inl e
           | Inr M' \<Rightarrow>
               bm_lines iMaxAbstracts WordIndex DocIndex (i + 1) rest
                 (st\<lparr>matrixWordDoc := M', bm_iAbstract := Some i\<rparr>))"

text \<open>
  The outer loop of \<open>build_matrix\<close> has no test of the counter before a file is opened,
  and a file that cannot be opened raises (no handler).
\<close>

fun bm_files :: "filesystem \<Rightarrow> int \<Rightarrow> (string \<rightharpoonup> nat) \<Rightarrow> (string \<rightharpoonup> nat) \<Rightarrow> string list
                   \<Rightarrow> bm_state \<Rightarrow> error + bm_state" where
  "bm_files fs iMaxAbstracts WordIndex DocIndex [] st = Inr st"
| "bm_files fs iMaxAbstracts WordIndex DocIndex (sFileName # rest) st =
     (case fs sFileName of
        None \<Rightarrow> Inl OSError
      | Some strFile \<Rightarrow>
          (case bm_lines iMaxAbstracts WordIndex DocIndex (bm_iAbstractsPreviousFiles st)
                  strFile st of
             Inl e \<Rightarrow> Inl e
           | Inr st' \<Rightarrow>
               (case bm_iAbstract st' of
                  None \<Rightarrow> Inl UnboundLocalError
                | Some i \<Rightarrow>
                    bm_files fs iMaxAbstracts WordIndex DocIndex rest
                      (st'\<lparr>bm_iAbstractsPreviousFiles := i\<rparr>))))"

definition build_matrix ::
  "filesystem \<Rightarrow> string list \<Rightarrow> string list \<Rightarrow> string list \<Rightarrow> int \<Rightarrow> error + lil_matrix" where
  "build_matrix fs PathList WordsInCorpus Docs' iMaxAbstracts =
     (let DocIndex = index_of Docs';
          WordIndex = index_of WordsInCorpus;
          M = new_lil_matrix (length WordsInCorpus) (length Docs')
      in case bm_files fs iMaxAbstracts WordIndex DocIndex PathList
                \<lparr>matrixWordDoc = M, bm_iAbstract = None, bm_iAbstractsPreviousFiles = 0\<rparr> of
           Inl e \<Rightarrow> Inl e
         | Inr st \<Rightarrow> Inr (matrixWordDoc st))"

text \<open>Row and column sums of a matrix, and the result of a run reduced to them.\<close>

definition row_sum :: "lil_matrix \<Rightarrow> nat \<Rightarrow> int" where
  "row_sum M i = (\<Sum>j\<leftarrow>[0..<ncols M]. cells M (i, j))"

definition col_sum :: "lil_matrix \<Rightarrow> nat \<Rightarrow> int" where
  "col_sum M j = (\<Sum>i\<leftarrow>[0..<nrows M]. cells M (i, j))"

text \<open>
  The fields of a corpus line as both passes read them: the document ID is \<open>Values[0]\<close>
  and the candidate tokens are \<open>Values[1:]\<close>. \<open>lines_of\<close> gives the lines of a file (none
  for a file that cannot be opened), and \<open>corpus\<close> the lines of all files of the list in
  file-then-line order.
\<close>

definition doc_id :: "string \<Rightarrow> string" where
  "doc_id sAbstract = hd (split_on (CHR '' '') (strip sAbstract))"

definition tokens_of :: "string \<Rightarrow> string list" where
  "tokens_of sAbstract = tl (split_on (CHR '' '') (strip sAbstract))"

definition lines_of :: "filesystem \<Rightarrow> string \<Rightarrow> string list" where
  "lines_of fs sFileName = (case fs sFileName of None \<Rightarrow> [] | Some strFile \<Rightarrow> strFile)"

definition corpus :: "filesystem \<Rightarrow> string list \<Rightarrow> string list" where
  "corpus fs PathList = concat (map (lines_of fs) PathList)"

text \<open>The four tests of the token loop on a non-empty token.\<close>

definition token_dropped :: "int \<Rightarrow> string \<Rightarrow> bool" where
  "token_dropped iMinWordLength sToken =
     (str_in ''--'' sToken \<or> hd sToken = CHR ''-'' \<or> rxNum_match sToken
      \<or> int (length sToken) < iMinWordLength)"

text \<open>
  The lines that the loops of a pass read. \<open>lines_read\<close> gives the lines of one file
  that the inner loop processes when its index starts at \<open>i\<close>, \<open>index_after\<close> the value
  of the loop variable after that loop, and \<open>visited\<close> the lines processed over a list
  of files, with the counter carried from file to file as both passes carry it.
\<close>

fun lines_read :: "int \<Rightarrow> int \<Rightarrow> string list \<Rightarrow> string list" where
  "lines_read N i [] = []"
| "lines_read N i (l # ls) = (if i > N then [] else l # lines_read N (i + 1) ls)"

fun index_after :: "int \<Rightarrow> int \<Rightarrow> string list \<Rightarrow> int option \<Rightarrow> int option" where
  "index_after N i [] a = a"
| "index_after N i (l # ls) a = (if i > N then Some i else index_after N (i + 1) ls (Some i))"

fun visited :: "filesystem \<Rightarrow> int \<Rightarrow> int \<Rightarrow> int option \<Rightarrow> string list \<Rightarrow> string list" where
  "visited fs N prev a [] = []"
| "visited fs N prev a (p # ps) =
     lines_read N prev (lines_of fs p) @
     (case index_after N prev (lines_of fs p) a of
        None \<Rightarrow> []
      | Some i \<Rightarrow> visited fs N i (Some i) ps)"

text \<open>The state of the matrix after the lines \<open>done\<close> have been counted into the columns
  \<open>0, 1, ...\<close> in this order: column \<open>j\<close> holds the counts of the words of line \<open>j\<close>, and
  every other cell is zero.\<close>

definition cells_filled :: "string list \<Rightarrow> nat \<Rightarrow> lil_matrix \<Rightarrow> string list \<Rightarrow> bool" where
  "cells_filled V n M done =
     (nrows M = length V \<and> ncols M = n \<and>
      cells M = (\<lambda>(i, j). if i < length V \<and> j < length done
                           then int (count_list (tokens_of (done ! j)) (V ! i)) else 0))"

text \<open>
  The numeric pattern as the specification words it, for comparison with \<open>rxNum_match\<close>:
  an optional sign, then digits, periods and commas, then an optional trailing percent
  sign, and nothing else.
\<close>

definition numeric_token :: "string \<Rightarrow> bool" where
  "numeric_token s =
     (let unsigned = (if s \<noteq> [] \<and> rxNum_sign (hd s) then tl s else s);
          body = (if unsigned \<noteq> [] \<and> last unsigned = CHR ''%'' then butlast unsigned
                  else unsigned)
      in body \<noteq> [] \<and> list_all rxNum_class body)"

section \<open>AbstractsFromIDs.py: the corpus assembler driven by a list of IDs\<close>

text \<open>
  What \<open>open(sTxtFName, 'r')\<close> and \<open>read()\<close> find at a path: no file (FileNotFoundError),
  a file that cannot be opened (PermissionError or another OSError), a file that opens
  and whose \<open>read()\<close> raises, or the text of the file.
\<close>

datatype file_state = Missing | OpenFails | ReadFails | Text string

record bs_state =
  strOut :: "string list"
  strErr :: "string list"

text \<open>The ID as a lower-case string without the tag \<open>pmid\<close>, the shard directory (the ID
  without its last four characters, padded with zeros on the left to four characters)
  and the path of the abstract.\<close>

definition normalise_id :: "string \<Rightarrow> string" where
  "normalise_id PubMedID =
     (let sPubMedID = lower PubMedID
      in if prefix ''pmid'' sPubMedID then drop 4 sPubMedID else sPubMedID)"

definition sub_dir :: "string \<Rightarrow> string" where
  "sub_dir sPubMedID =
     (let sSubDir = take (length sPubMedID - 4) sPubMedID
      in replicate (4 - length sSubDir) (CHR ''0'') @ sSubDir)"

definition txt_fname :: "string \<Rightarrow> string \<Rightarrow> string" where
  "txt_fname sPubMedDir sPubMedID =
     sPubMedDir @ sub_dir sPubMedID @ ''/PMID'' @ sPubMedID @ ''.txt''"

text \<open>
  The loop over the rows of the data frame; \<open>DataFrame\<close> is the first column as strings
  (\<open>str(PubMedID)\<close>) and \<open>iRow\<close> counts from 0. Only FileNotFoundError is handled: an
  \<open>open\<close> that fails otherwise raises, a failing \<open>read()\<close> ends in \<open>exit(1)\<close>, and
  \<open>int(sPubMedID)\<close> may raise ValueError.
\<close>

fun BuildSubset_rows ::
  "(string \<Rightarrow> int option) \<Rightarrow> (string \<Rightarrow> string list) \<Rightarrow> (string \<Rightarrow> file_state) \<Rightarrow> string \<Rightarrow> int
     \<Rightarrow> int \<Rightarrow> string list \<Rightarrow> bs_state \<Rightarrow> error + bs_state" where
  "BuildSubset_rows py_int findall files sPubMedDir iMaxAbstracts iRow [] st = Inr st"
| "BuildSubset_rows py_int findall files sPubMedDir iMaxAbstracts iRow (PubMedID # rest) st =
     (if iRow \<ge> iMaxAbstracts
      then Inr (st\<lparr>strErr := strErr st @ [''Stopping at '' @ str_int iRow @ ''th abstract.\<newline>'']\<rparr>)
      else
        let sPubMedID = normalise_id PubMedID;
            sTxtFName = txt_fname sPubMedDir sPubMedID
        in case files sTxtFName of
             Missing \<Rightarrow>
               BuildSubset_rows py_int findall files sPubMedDir iMaxAbstracts (iRow + 1) rest
                 (st\<lparr>strErr := strErr st @
                    [''Unable to find file for PubMed ID '' @ sPubMedID @
                     ''; possibly newer than newest downloaded abstract.  Ignoring.\<newline>'']\<rparr>)
           | OpenFails \<Rightarrow> Inl OSError
           | ReadFails \<Rightarrow> Inl SystemExit
           | Text raw \<Rightarrow>
               (let sData = strip (lower raw)
                in if sData = []
                   then BuildSubset_rows py_int findall files sPubMedDir iMaxAbstracts (iRow + 1)
                          rest
                          (st\<lparr>strErr := strErr st @ [''Found empty file '' @ sTxtFName @ ''\<newline>'']\<rparr>)
                   else (case py_int sPubMedID of
                           None \<Rightarrow> Inl ValueError
                         | Some n \<Rightarrow>
                             BuildSubset_rows py_int findall files sPubMedDir iMaxAbstracts
                               (iRow + 1) rest
                               (st\<lparr>strOut := strOut st @
                                  [format08 n @ '' '' @ join '' '' (findall sData) @ ''\<newline>'']\<rparr>))))"

text \<open>\<open>BuildSubset\<close>: a failure to list the root directory ends in \<open>exit(1)\<close>.\<close>

definition BuildSubset ::
  "(string \<Rightarrow> int option) \<Rightarrow> (string \<Rightarrow> string list) \<Rightarrow> bool \<Rightarrow> (string \<Rightarrow> file_state)
     \<Rightarrow> string list \<Rightarrow> string \<Rightarrow> int \<Rightarrow> error + bs_state" where
  "BuildSubset py_int findall root_listable files DataFrame sPubMedDir iMaxAbstracts =
     (if \<not> root_listable then Inl SystemExit
      else BuildSubset_rows py_int findall files sPubMedDir iMaxAbstracts 0 DataFrame
             \<lparr>strOut = [], strErr = []\<rparr>)"

section \<open>importAbstracts.py: the bibliographic importer\<close>

text \<open>
  The index file when the program starts: absent, present but not openable for reading
  (the failure is reported and the program goes on, so the loop over \<open>strIndex\<close> meets an
  unbound name), or its lines. The first new ID is one more than the number in the first
  tab-separated field of the last line; the dummy line \<open>'0'\<close> stands in for an empty
  file.
\<close>

datatype index_file = NoIndex | IndexUnreadable | IndexLines "string list"

definition GetCmdLineParameters_iID :: "(string \<Rightarrow> int option) \<Rightarrow> index_file \<Rightarrow> error + int" where
  "GetCmdLineParameters_iID py_int ix =
     (case ix of
        NoIndex \<Rightarrow> Inr 1
      | IndexUnreadable \<Rightarrow> Inl UnboundLocalError
      | IndexLines strIndex \<Rightarrow>
          (let sLine = foldl (\<lambda>sLine l. l) ''0'' strIndex
           in case py_int (hd (split_on (CHR 0x09) sLine)) of
                None \<Rightarrow> Inl ValueError
              | Some n \<Rightarrow> Inr (n + 1)))"

text \<open>
  The streams of the importer: the lines of the input that are still to be read, and
  the lines written to the output, to the index and to the error stream.
  \<open>readline\<close> gives the next line, or the empty string at the end of the input.
\<close>

record imp_state =
  imp_strIn :: "string list"
  imp_strOut :: "string list"
  imp_strIndex :: "string list"
  imp_stderr :: "string list"

definition readline :: "string list \<Rightarrow> string \<times> string list" where
  "readline f = (case f of [] \<Rightarrow> ([], []) | l # ls \<Rightarrow> (l, ls))"

text \<open>The title: the first line that is not blank, stripped; \<open>None\<close> at the end of the
  input.\<close>

fun read_title :: "string list \<Rightarrow> string option \<times> string list" where
  "read_title [] = (None, [])"
| "read_title (l # ls) =
     (if l = [] then (None, ls)
      else if strip l = [] then read_title ls
      else (Some (strip l), ls))"

definition index_line :: "int \<Rightarrow> string \<Rightarrow> string \<Rightarrow> string" where
  "index_line iID sAuthors sTitle =
     str_int iID @ [CHR 0x09] @ sAuthors @ [CHR 0x09] @ sTitle @ ''\<newline>''"

definition corpus_line :: "int \<Rightarrow> string \<Rightarrow> string" where
  "corpus_line iID sText = str_int iID @ '' '' @ join '' '' (split_ws sText) @ ''\<newline>''"

definition ProcessNextAbstract :: "imp_state \<Rightarrow> int \<Rightarrow> int option \<times> imp_state" where
  "ProcessNextAbstract st iID =
     (case read_title (imp_strIn st) of
        (None, r) \<Rightarrow> (None, st\<lparr>imp_strIn := r\<rparr>)
      | (Some sTitle, r1) \<Rightarrow>
          (let sAuthors = strip (fst (readline r1));
               r2 = snd (readline r1);
               sText = strip (fst (readline r2));
               st1 = st\<lparr>imp_strIn := snd (readline r2)\<rparr>
           in if sTitle = [] \<or> sAuthors = [] \<or> sText = []
              then (Some iID,
                    st1\<lparr>imp_stderr := imp_stderr st1 @
                       [''Found incomplete abstract; authors = '' @ [CHR 0x27] @ sAuthors
                        @ [CHR 0x27] @ '', title = '' @ [CHR 0x27] @ sTitle @ [CHR 0x27]
                        @ '', text = '' @ [CHR 0x27] @ sText @ [CHR 0x27] @ ''.  Skipping.'']\<rparr>)
              else (Some (iID + 1),
                    st1\<lparr>imp_strIndex := imp_strIndex st1 @ [index_line iID sAuthors sTitle],
                         imp_strOut := imp_strOut st1 @ [corpus_line iID sText]\<rparr>)))"

text \<open>
  The main program: \<open>iNewID = ProcessNextAbstract(..., iID)\<close>, then
  \<open>while iNewID: iNewID = ProcessNextAbstract(..., iNewID)\<close>. The loop ends on \<open>None\<close> and
  on 0. Every call that returns an ID has read at least one line, so the loop ends.
\<close>

function main_loop :: "imp_state \<Rightarrow> int \<Rightarrow> imp_state" where
  "main_loop st iID =
     (case ProcessNextAbstract st iID of
        (None, st') \<Rightarrow> st'
      | (Some iNewID, st') \<Rightarrow> if iNewID = 0 then st' else main_loop st' iNewID)"
  by pat_completeness auto
termination
proof -
  have rt: "read_title ls = (Some t, r) \<Longrightarrow> length r < length ls" for ls t r
    by (induction ls) (auto split: if_splits)
  have rl: "length (snd (readline r)) \<le> length r" for r
    by (cases r) (auto simp: readline_def)
  have step: "length (imp_strIn st') < length (imp_strIn st)"
    if "(Some n, st') = ProcessNextAbstract st iID" for st iID n st'
  proof -
    from that[symmetric] obtain t r1 where t: "read_title (imp_strIn st) = (Some t, r1)"
      and s: "imp_strIn st' = snd (readline (snd (readline r1)))"
      by (auto simp: ProcessNextAbstract_def Let_def split: prod.splits option.splits if_splits)
    have "length (imp_strIn st') \<le> length r1"
      unfolding s using rl[of r1] rl[of "snd (readline r1)"] by linarith
    with rt[OF t] show ?thesis by simp
  qed
  show ?thesis
    by (relation "measure (\<lambda>(st, iID). length (imp_strIn st))") (auto dest: step)
qed

declare main_loop.simps [simp del]

section \<open>prepare\_pubmed\_subset.py: sampling over the shard tree\<close>

text \<open>
  What the program writes to \<open>sys.stderr\<close> is recorded as events, not as text: the
  progress message with its four numbers, the report of an empty file with its
  directory and stem, and the final newline. The messages before \<open>exit(1)\<close> are not
  recorded.
\<close>

datatype ps_event = Progress int int int int | EmptyFile string string | FinalNewline

record ps_state =
  ps_strOut :: "string list"
  ps_stderr :: "ps_event list"
  iFilesInAll :: int
  iProcessed :: int

text \<open>\<open>Intervals = [iNth * iDenominator // iNumerator for iNth in range(iNumerator)]\<close>.\<close>

definition Intervals :: "int \<Rightarrow> int \<Rightarrow> int list" where
  "Intervals iNumerator iDenominator =
     map (\<lambda>iNth. iNth * iDenominator div iNumerator) [0..iNumerator - 1]"

text \<open>\<open>x.stem.lstrip('PMID')\<close>: the leading characters P, M, I and D are removed.\<close>

definition lstrip_PMID :: "string \<Rightarrow> string" where
  "lstrip_PMID s = dropWhile (\<lambda>c. c \<in> set ''PMID'') s"

text \<open>
  The loop over the sorted files of one directory. A file is a stem with what reading it
  finds. The running counter \<open>iFilesInAll\<close> is kept in the state across directories;
  \<open>iFilesInAll % iDenominator\<close> raises ZeroDivisionError for a denominator of 0, and
  every failure inside the \<open>try\<close> block ends in \<open>exit(1)\<close>.
\<close>

fun ps_files ::
  "(string \<Rightarrow> int option) \<Rightarrow> (string \<Rightarrow> string list) \<Rightarrow> int list \<Rightarrow> int \<Rightarrow> int \<Rightarrow> int \<Rightarrow> string
     \<Rightarrow> (string \<times> file_state) list \<Rightarrow> ps_state \<Rightarrow> error + ps_state" where
  "ps_files py_int findall Ivs iDenominator iNthDir iSubdirs sSubdir [] st = Inr st"
| "ps_files py_int findall Ivs iDenominator iNthDir iSubdirs sSubdir (sTxtFName # rest) st =
     (let st1 = st\<lparr>iFilesInAll := iFilesInAll st + 1\<rparr>;
          st2 = (if iFilesInAll st1 mod 1000 = 0
                 then st1\<lparr>ps_stderr := ps_stderr st1 @
                        [Progress iNthDir iSubdirs (iFilesInAll st1) (iProcessed st1)]\<rparr>
                 else st1)
      in if iDenominator = 0 then Inl ZeroDivisionError
         else if iFilesInAll st2 mod iDenominator \<notin> set Ivs
         then ps_files py_int findall Ivs iDenominator iNthDir iSubdirs sSubdir rest st2
         else
           let st3 = st2\<lparr>iProcessed := iProcessed st2 + 1\<rparr>
           in case snd sTxtFName of
                Text raw \<Rightarrow>
                  (let sData = strip (lower raw)
                   in if sData = []
                      then ps_files py_int findall Ivs iDenominator iNthDir iSubdirs sSubdir rest
                             (st3\<lparr>ps_stderr := ps_stderr st3 @
                                    [EmptyFile sSubdir (fst sTxtFName)]\<rparr>)
                      else (case py_int (lstrip_PMID (fst sTxtFName)) of
                              None \<Rightarrow> Inl SystemExit
                            | Some n \<Rightarrow>
                                ps_files py_int findall Ivs iDenominator iNthDir iSubdirs sSubdir
                                  rest
                                  (st3\<lparr>ps_strOut := ps_strOut st3 @
                                     [format08 n @ '' '' @ join '' '' (findall sData)
                                      @ ''\<newline>'']\<rparr>)))
              | _ \<Rightarrow> Inl SystemExit)"

text \<open>
  The loop over the sorted directories. A directory is its name with the list of its
  \<open>*.txt\<close> files as \<open>glob\<close> yields them, or \<open>None\<close> when listing it fails. The files are
  sorted by \<open>int(x.stem.lstrip('PMID'))\<close>; a stem for which \<open>int\<close> raises ends the run,
  as the sort is inside the \<open>try\<close> block.
\<close>

fun ps_dirs ::
  "(string \<Rightarrow> int option) \<Rightarrow> (string \<Rightarrow> string list) \<Rightarrow> int list \<Rightarrow> int \<Rightarrow> int \<Rightarrow> int
     \<Rightarrow> (string \<times> (string \<times> file_state) list option) list \<Rightarrow> ps_state \<Rightarrow> error + ps_state" where
  "ps_dirs py_int findall Ivs iDenominator iNthDir iSubdirs [] st = Inr st"
| "ps_dirs py_int findall Ivs iDenominator iNthDir iSubdirs (sSubdir # rest) st =
     (case snd sSubdir of
        None \<Rightarrow> Inl SystemExit
      | Some txts \<Rightarrow>
          if list_ex (\<lambda>x. py_int (lstrip_PMID (fst x)) = None) txts then Inl SystemExit
          else
            let Files = sort_key (\<lambda>x. the (py_int (lstrip_PMID (fst x)))) txts
            in case ps_files py_int findall Ivs iDenominator iNthDir iSubdirs (fst sSubdir)
                      Files st of
                 Inl e \<Rightarrow> Inl e
               | Inr st' \<Rightarrow>
                   ps_dirs py_int findall Ivs iDenominator (iNthDir + 1) iSubdirs rest st')"

text \<open>\<open>build_subset\<close>: the root is the list of its subdirectories as \<open>glob\<close> yields them,
  or \<open>None\<close> when listing it fails; the subdirectories are sorted by name.\<close>

definition build_subset ::
  "(string \<Rightarrow> int option) \<Rightarrow> (string \<Rightarrow> string list)
     \<Rightarrow> (string \<times> (string \<times> file_state) list option) list option \<Rightarrow> int \<Rightarrow> int
     \<Rightarrow> error + ps_state" where
  "build_subset py_int findall sRootDir iNumerator iDenominator =
     (case sRootDir of
        None \<Rightarrow> Inl SystemExit
      | Some dirs \<Rightarrow>
          (let SubDirs = sort_key fst dirs
           in case ps_dirs py_int findall (Intervals iNumerator iDenominator) iDenominator 1
                     (int (length SubDirs)) SubDirs
                     \<lparr>ps_strOut = [], ps_stderr = [], iFilesInAll = 0, iProcessed = 0\<rparr> of
                Inl e \<Rightarrow> Inl e
              | Inr st \<Rightarrow> Inr (st\<lparr>ps_stderr := ps_stderr st @ [FinalNewline]\<rparr>)))"

text \<open>
  The notions of the sampling claim. An abstract file is well formed when its stem has a
  number and reading it gives text that is not blank; \<open>traversal\<close> is the global order of
  the files (directories by name, files by number within a directory); \<open>sample_line\<close> is
  the line written for a file; \<open>every d c xs\<close> are the elements of \<open>xs\<close> whose running
  number, counted on from \<open>c\<close>, is a multiple of \<open>d\<close>.
\<close>

definition abstract_ok :: "(string \<Rightarrow> int option) \<Rightarrow> string \<times> file_state \<Rightarrow> bool" where
  "abstract_ok py_int x =
     (py_int (lstrip_PMID (fst x)) \<noteq> None \<and>
      (case snd x of Text raw \<Rightarrow> strip (lower raw) \<noteq> [] | _ \<Rightarrow> False))"

definition tree_ok :: "(string \<Rightarrow> int option) \<Rightarrow> (string \<times> (string \<times> file_state) list option) list \<Rightarrow> bool" where
  "tree_ok py_int dirs =
     list_all (\<lambda>d. case snd d of None \<Rightarrow> False | Some txts \<Rightarrow> list_all (abstract_ok py_int) txts)
       dirs"

definition sorted_files :: "(string \<Rightarrow> int option) \<Rightarrow> string \<times> (string \<times> file_state) list option
                              \<Rightarrow> (string \<times> file_state) list" where
  "sorted_files py_int d =
     (case snd d of None \<Rightarrow> []
      | Some txts \<Rightarrow> sort_key (\<lambda>x. the (py_int (lstrip_PMID (fst x)))) txts)"

definition traversal :: "(string \<Rightarrow> int option) \<Rightarrow> (string \<times> (string \<times> file_state) list option) list
                           \<Rightarrow> (string \<times> file_state) list" where
  "traversal py_int dirs = concat (map (sorted_files py_int) (sort_key fst dirs))"

definition sample_line :: "(string \<Rightarrow> int option) \<Rightarrow> (string \<Rightarrow> string list) \<Rightarrow> string \<times> file_state
                             \<Rightarrow> string" where
  "sample_line py_int findall x =
     (case snd x of
        Text raw \<Rightarrow> format08 (the (py_int (lstrip_PMID (fst x)))) @ '' ''
                    @ join '' '' (findall (strip (lower raw))) @ ''\<newline>''
      | _ \<Rightarrow> [])"

fun every :: "int \<Rightarrow> int \<Rightarrow> 'a list \<Rightarrow> 'a list" where
  "every d c [] = []"
| "every d c (x # xs) = (if (c + 1) mod d = 0 then x # every d (c + 1) xs else every d (c + 1) xs)"

section \<open>The token loop and one line of the first pass\<close>

lemma split_on_nonempty: "split_on sep s \<noteq> []"
  by (cases s) auto

lemma drop_tokens_IndexError:
  "[] \<in> set ts \<Longrightarrow> drop_tokens L ts NW = Inl IndexError"
  by (induction ts arbitrary: NW) auto

lemma drop_tokens_ok:
  "[] \<notin> set ts \<Longrightarrow> drop_tokens L ts NW = Inr (NW - {t \<in> set ts. token_dropped L t})"
proof (induction ts arbitrary: NW)
  case Nil
  then show ?case by simp
next
  case (Cons t ts)
  then have "t \<noteq> []" and "[] \<notin> set ts" by auto
  with Cons.IH show ?case
    by (auto simp: token_dropped_def)
qed

text \<open>A line raises IndexError iff one of its tokens is empty and not a stopword;
  otherwise its ID is appended and the tokens that pass the tests are added.\<close>

lemma gwd_line_eq:
  "gwd_line L SW l st =
     (if [] \<in> set (tokens_of l) - SW then Inl IndexError
      else Inr (st\<lparr>Docs := Docs st @ [doc_id l],
                    Words := Words st \<union> {t \<in> set (tokens_of l) - SW. \<not> token_dropped L t}\<rparr>))"
proof -
  let ?NW = "set (tokens_of l) - SW"
  have s: "set (sorted_list_of_set ?NW) = ?NW" by simp
  show ?thesis
  proof (cases "[] \<in> ?NW")
    case True
    then have "[] \<in> set (sorted_list_of_set ?NW)" using s by simp
    then show ?thesis using True
      by (simp add: gwd_line_def Let_def drop_tokens_IndexError tokens_of_def)
  next
    case False
    then have "[] \<notin> set (sorted_list_of_set ?NW)" using s by simp
    then have "drop_tokens L (sorted_list_of_set ?NW) ?NW
                 = Inr (?NW - {t \<in> ?NW. token_dropped L t})"
      using drop_tokens_ok[of "sorted_list_of_set ?NW" L ?NW] s by simp
    moreover have "?NW - {t \<in> ?NW. token_dropped L t} = {t \<in> ?NW. \<not> token_dropped L t}"
      by auto
    ultimately show ?thesis using False
      by (simp add: gwd_line_def Let_def tokens_of_def doc_id_def)
  qed
qed

lemma double_sep_empty_field:
  "str_in [sep, sep] s \<Longrightarrow> [] \<in> set (tl (split_on sep s))"
proof (induction s)
  case Nil
  then show ?case by simp
next
  case (Cons c cs)
  show ?case
  proof (cases "prefix [sep, sep] (c # cs)")
    case True
    then obtain r where "c = sep" "cs = sep # r"
      by (auto simp: prefix_def)
    then show ?thesis by simp
  next
    case False
    from Cons.prems have "prefix [sep, sep] (c # cs) \<or> str_in [sep, sep] cs"
      by (simp only: str_in.simps)
    with False have "str_in [sep, sep] cs" by blast
    then have "[] \<in> set (tl (split_on sep cs))" by (rule Cons.IH)
    moreover have "set (tl (split_on sep cs)) \<subseteq> set (split_on sep cs)"
      by (cases "split_on sep cs") auto
    ultimately show ?thesis by auto
  qed
qed

section \<open>Claims about single lines of the first pass\<close>

text \<open>
  C10. A line that is reached within the cap and whose stripped text contains two
  adjacent spaces has an empty string among its candidate tokens. Unless the empty
  string is a stopword, the test \<open>sToken[0] == '-'\<close> is evaluated on it and the inner
  loop ends in IndexError, whatever the state and the rest of the file are; when the
  line is the first of the first file, \<open>get_words_and_documents\<close> as a whole returns
  that IndexError.
\<close>

theorem C10_double_space_IndexError:
  assumes "str_in ''  '' (strip sAbstract)" and "[] \<notin> StopWords" and "i \<le> iMaxAbstracts"
  shows "gwd_lines iMaxAbstracts iMinWordLength StopWords i (sAbstract # rest) st
           = Inl IndexError
       \<and> (fs p = Some (sAbstract # rest) \<and> i = 0 \<longrightarrow>
            get_words_and_documents fs (p # ps) iMaxAbstracts iMinWordLength StopWords
              = Inl IndexError)"
proof -
  have "[] \<in> set (tokens_of sAbstract) - StopWords"
    using assms(1,2) double_sep_empty_field[of "CHR '' ''" "strip sAbstract"]
    by (simp add: tokens_of_def)
  then have "gwd_line iMinWordLength StopWords sAbstract s = Inl IndexError" for s
    by (simp add: gwd_line_eq)
  then have g: "gwd_lines iMaxAbstracts iMinWordLength StopWords i (sAbstract # rest) s
                  = Inl IndexError" for s
    using assms(3) by simp
  show ?thesis
  proof (intro conjI impI)
    show "gwd_lines iMaxAbstracts iMinWordLength StopWords i (sAbstract # rest) st
            = Inl IndexError"
      by (rule g)
  next
    assume a: "fs p = Some (sAbstract # rest) \<and> i = 0"
    then have "gwd_lines iMaxAbstracts iMinWordLength StopWords 0 (sAbstract # rest) s
                 = Inl IndexError" for s
      using g[of s] by (simp del: gwd_lines.simps)
    then show "get_words_and_documents fs (p # ps) iMaxAbstracts iMinWordLength StopWords
                 = Inl IndexError"
      using a assms(3) by (simp add: get_words_and_documents_def del: gwd_lines.simps)
  qed
qed

theorem C10_double_space_IndexError_witness:
  "str_in ''  '' (strip ''7 aa  bb\<newline>'') \<and> [] \<notin> {''the''} \<and> (0::int) \<le> 5
   \<and> gwd_lines 5 2 {''the''} 0 [''7 aa  bb\<newline>'', ''8 cc\<newline>'']
        \<lparr>Words = {}, Docs = [], iAbstract = None, iAbstractsPreviousFiles = 0\<rparr>
       = Inl IndexError
   \<and> get_words_and_documents [''a.txt'' \<mapsto> [''7 aa  bb\<newline>'', ''8 cc\<newline>'']] [''a.txt'']
        5 2 {''the''} = Inl IndexError"
proof -
  have h1: "str_in ''  '' (strip ''7 aa  bb\<newline>'')"
    by (simp add: strip_def isspace_def)
  have h2: "[] \<notin> {''the''}" by simp
  have h3: "(0::int) \<le> 5" by simp
  show ?thesis
    using h1 h2 h3
      C10_double_space_IndexError[OF h1 h2 h3, of 2 "[''8 cc\<newline>'']"
        "\<lparr>Words = {}, Docs = [], iAbstract = None, iAbstractsPreviousFiles = 0\<rparr>"
        "[''a.txt'' \<mapsto> [''7 aa  bb\<newline>'', ''8 cc\<newline>'']]" "''a.txt''" "[]"]
    by simp
qed



section \<open>The cap of the first pass\<close>

text \<open>
  C3. The cap is not an upper bound of the document axis. With a cap of 1 and three files
  of one line each, all three lines are read: after a file, \<open>iAbstractsPreviousFiles\<close>
  takes the index of the last line (0 here), not the number of lines read so far, and
  within a file the test \<open>iAbstract > iMaxAbstracts\<close> lets the line with index 1 pass.
\<close>

theorem C3_axis_longer_than_cap:
  "get_words_and_documents
     [''a.txt'' \<mapsto> [''1 aa\<newline>''], ''b.txt'' \<mapsto> [''2 bb\<newline>''], ''c.txt'' \<mapsto> [''3 cc\<newline>'']]
     [''a.txt'', ''b.txt'', ''c.txt''] 1 2 {}
   = Inr ([''aa'', ''bb'', ''cc''], [''1'', ''2'', ''3''])"
  by code_simp

section \<open>The lines that the two passes read\<close>

lemma lines_read_prefix: "prefix (lines_read N i ls) ls"
  by (induction ls arbitrary: i) auto

lemma lines_read_beyond: "i > N \<Longrightarrow> lines_read N i ls = []"
  by (cases ls) auto

lemma index_after_beyond: "i > N \<Longrightarrow> index_after N i ls a = (if ls = [] then a else Some i)"
  by (cases ls) auto

lemma index_after_bound: "a \<noteq> None \<Longrightarrow> index_after N i ls a \<noteq> None"
  by (induction ls arbitrary: i a) auto

lemma index_after_nonempty: "ls \<noteq> [] \<Longrightarrow> index_after N i ls a \<noteq> None"
proof (cases ls)
  case Nil
  assume "ls \<noteq> []"
  with Nil show ?thesis by simp
next
  case (Cons l ls')
  have "index_after N (i + 1) ls' (Some i) \<noteq> None"
    by (rule index_after_bound) simp
  with Cons show ?thesis by simp
qed

lemma lines_read_all_or_cap:
  "lines_read N i ls = ls \<or> (\<exists>j. index_after N i ls a = Some j \<and> j > N)"
  by (induction ls arbitrary: i a) auto

lemma visited_beyond:
  "prev > N \<Longrightarrow> a = None \<or> a = Some prev \<Longrightarrow> visited fs N prev a ps = []"
proof (induction ps arbitrary: a)
  case Nil
  then show ?case by simp
next
  case (Cons p ps)
  show ?case
  proof (cases "lines_of fs p = []")
    case True
    with Cons show ?thesis by (auto split: option.splits)
  next
    case False
    with Cons show ?thesis
      by (simp add: lines_read_beyond index_after_beyond)
  qed
qed

lemma visited_prefix: "prefix (visited fs N prev a ps) (corpus fs ps)"
proof (induction ps arbitrary: prev a)
  case Nil
  then show ?case by simp
next
  case (Cons p ps)
  let ?ls = "lines_of fs p"
  from lines_read_all_or_cap[of N prev ?ls a]
  show ?case
  proof
    assume "lines_read N prev ?ls = ?ls"
    then show ?thesis using Cons.IH
      by (auto simp: corpus_def split: option.splits)
  next
    assume "\<exists>j. index_after N prev ?ls a = Some j \<and> j > N"
    then obtain j where j: "index_after N prev ?ls a = Some j" "j > N" by blast
    then have "visited fs N j (Some j) ps = []" by (simp add: visited_beyond)
    with j have "visited fs N prev a (p # ps) = lines_read N prev ?ls" by simp
    moreover have "prefix (lines_read N prev ?ls) (?ls @ corpus fs ps)"
      using lines_read_prefix prefix_prefix by blast
    ultimately show ?thesis by (simp add: corpus_def)
  qed
qed

lemma gwd_lines_Docs:
  "gwd_lines N L SW i ls st = Inr st' \<Longrightarrow>
     Docs st' = Docs st @ map doc_id (lines_read N i ls)
     \<and> iAbstract st' = index_after N i ls (iAbstract st)
     \<and> iAbstractsPreviousFiles st' = iAbstractsPreviousFiles st"
proof (induction ls arbitrary: i st)
  case Nil
  then show ?case by simp
next
  case (Cons l ls)
  show ?case
  proof (cases "i > N")
    case True
    with Cons.prems show ?thesis by auto
  next
    case False
    with Cons.prems obtain st1 where
      l: "gwd_line L SW l (st\<lparr>iAbstract := Some i\<rparr>) = Inr st1" and
      r: "gwd_lines N L SW (i + 1) ls st1 = Inr st'"
      by (auto split: sum.splits)
    from l have st1: "Docs st1 = Docs st @ [doc_id l]" "iAbstract st1 = Some i"
      "iAbstractsPreviousFiles st1 = iAbstractsPreviousFiles st"
      by (auto simp: gwd_line_eq split: if_splits)
    from Cons.IH[OF r] st1 False show ?thesis by simp
  qed
qed

lemma gwd_files_Docs:
  "gwd_files fs N L SW ps st = Inr st' \<Longrightarrow>
   iAbstract st = None \<or> iAbstract st = Some (iAbstractsPreviousFiles st) \<Longrightarrow>
     Docs st' = Docs st @ map doc_id (visited fs N (iAbstractsPreviousFiles st) (iAbstract st) ps)"
proof (induction ps arbitrary: st)
  case Nil
  then show ?case by simp
next
  case (Cons p ps)
  show ?case
  proof (cases "iAbstractsPreviousFiles st > N")
    case True
    then have "visited fs N (iAbstractsPreviousFiles st) (iAbstract st) (p # ps) = []"
      using Cons.prems(2) by (rule visited_beyond)
    with True Cons.prems(1) show ?thesis by simp
  next
    case False
    with Cons.prems(1) obtain ls st1 i where
      f: "fs p = Some ls" and
      l: "gwd_lines N L SW (iAbstractsPreviousFiles st) ls st = Inr st1" and
      i: "iAbstract st1 = Some i" and
      r: "gwd_files fs N L SW ps (st1\<lparr>iAbstractsPreviousFiles := i\<rparr>) = Inr st'"
      by (auto split: option.splits sum.splits)
    from gwd_lines_Docs[OF l] have
      d: "Docs st1 = Docs st @ map doc_id (lines_read N (iAbstractsPreviousFiles st) ls)" and
      a: "iAbstract st1 = index_after N (iAbstractsPreviousFiles st) ls (iAbstract st)"
      by auto
    have "Docs st' = Docs (st1\<lparr>iAbstractsPreviousFiles := i\<rparr>)
            @ map doc_id (visited fs N i (Some i) ps)"
      using Cons.IH[OF r] i by simp
    moreover have "index_after N (iAbstractsPreviousFiles st) ls (iAbstract st) = Some i"
      using a i by simp
    ultimately show ?thesis using d f by (simp add: lines_of_def)
  qed
qed

section \<open>The dictionaries and the cells of the matrix pass\<close>

lemma index_fold_notin:
  assumes f: "\<And>i y m. f (i, y) m = m(y \<mapsto> i)"
  shows "x \<notin> set xs \<Longrightarrow> fold f (enumerate n xs) m x = m x"
  by (induction xs arbitrary: n m) (auto simp: f)

lemma index_fold_distinct:
  assumes f: "\<And>i y m. f (i, y) m = m(y \<mapsto> i)"
  shows "distinct xs \<Longrightarrow> i < length xs \<Longrightarrow> fold f (enumerate n xs) m (xs ! i) = Some (n + i)"
proof (induction xs arbitrary: n m i)
  case Nil
  then show ?case by simp
next
  case (Cons x xs)
  show ?case
  proof (cases i)
    case 0
    with Cons.prems index_fold_notin[of f x xs "Suc n" "m(x \<mapsto> n)", OF f]
    show ?thesis by (simp add: f)
  next
    case (Suc k)
    have "fold f (enumerate n (x # xs)) m = fold f (enumerate (Suc n) xs) (m(x \<mapsto> n))"
      by (simp add: f)
    moreover have "fold f (enumerate (Suc n) xs) (m(x \<mapsto> n)) (xs ! k) = Some (Suc n + k)"
      using Cons.prems Suc by (intro Cons.IH) auto
    ultimately show ?thesis using Suc by simp
  qed
qed

lemma index_fold_in:
  assumes f: "\<And>i y m. f (i, y) m = m(y \<mapsto> i)"
  shows "x \<in> set xs \<Longrightarrow> fold f (enumerate n xs) m x \<noteq> None"
proof (induction xs arbitrary: n m)
  case Nil
  then show ?case by simp
next
  case (Cons y ys)
  show ?case
  proof (cases "x \<in> set ys")
    case True
    then show ?thesis using Cons.IH by (simp add: f)
  next
    case False
    with Cons.prems have "x = y" by simp
    with False index_fold_notin[of f y ys "Suc n" "m(y \<mapsto> n)", OF f]
    show ?thesis by (simp add: f)
  qed
qed

lemma index_of_nth: "distinct xs \<Longrightarrow> i < length xs \<Longrightarrow> index_of xs (xs ! i) = Some i"
  using index_fold_distinct[of "\<lambda>(i, x) m. m(x \<mapsto> i)" xs i 0 Map.empty]
  by (simp add: index_of_def)

lemma index_of_dom: "(index_of xs x \<noteq> None) = (x \<in> set xs)"
proof (cases "x \<in> set xs")
  case True
  then show ?thesis
    using index_fold_in[of "\<lambda>(i, x) m. m(x \<mapsto> i)" x xs 0 Map.empty]
    by (simp add: index_of_def)
next
  case False
  then show ?thesis
    using index_fold_notin[of "\<lambda>(i, x) m. m(x \<mapsto> i)" x xs 0 Map.empty]
    by (simp add: index_of_def)
qed

lemma set_counter_keys: "set (counter_keys xs) = set xs"
  by (induction xs) auto

lemma bm_cells_eq:
  assumes "distinct V" and "DI d = Some j" and "j < ncols M" and "nrows M = length V"
    and "set ws \<subseteq> set V"
  shows "bm_cells (index_of V) DI d counted ws M =
         Inr (M\<lparr>cells := (\<lambda>(i', j'). if j' = j \<and> i' < length V \<and> V ! i' \<in> set ws
                                       then int (count_list counted (V ! i'))
                                       else cells M (i', j'))\<rparr>)"
  using assms
proof (induction ws arbitrary: M)
  case Nil
  then show ?case by simp
next
  case (Cons w ws)
  from Cons.prems(5) obtain i where i: "i < length V" "V ! i = w"
    by (auto simp: in_set_conv_nth)
  then have wi: "index_of V w = Some i"
    using index_of_nth[OF Cons.prems(1), of i] by simp
  let ?M1 = "M\<lparr>cells := (cells M)((i, j) := int (count_list counted w))\<rparr>"
  have s: "setitem M i j (int (count_list counted w)) = Inr ?M1"
    using i Cons.prems(3,4) by (simp add: setitem_def)
  have ih: "bm_cells (index_of V) DI d counted ws ?M1 =
         Inr (?M1\<lparr>cells := (\<lambda>(i', j'). if j' = j \<and> i' < length V \<and> V ! i' \<in> set ws
                                       then int (count_list counted (V ! i'))
                                       else cells ?M1 (i', j'))\<rparr>)"
    using Cons.prems by (intro Cons.IH) auto
  have e: "(\<lambda>(i', j'). if j' = j \<and> i' < length V \<and> V ! i' \<in> set ws
                                       then int (count_list counted (V ! i'))
                                       else cells ?M1 (i', j'))
         = (\<lambda>(i', j'). if j' = j \<and> i' < length V \<and> V ! i' \<in> set (w # ws)
                                       then int (count_list counted (V ! i'))
                                       else cells M (i', j'))"
    using i Cons.prems(1) by (auto simp: fun_eq_iff nth_eq_iff_index_eq)
  show ?case
    using wi Cons.prems(2) s ih e by simp
qed

lemma count_list_filter_in:
  "P w \<Longrightarrow> count_list (filter P ts) w = count_list ts w"
  by (induction ts) auto

lemma bm_line_step:
  assumes inv: "cells_filled V n M done" and dV: "distinct V"
    and d: "DI (doc_id l) = Some (length done)" and lt: "length done < n"
  shows "\<exists>M'. bm_line (index_of V) DI l M = Inr M' \<and> cells_filled V n M' (done @ [l])"
proof -
  define counted where "counted = filter (\<lambda>w. index_of V w \<noteq> None) (tokens_of l)"
  have c: "counted = filter (\<lambda>w. w \<in> set V) (tokens_of l)"
    unfolding counted_def
    by (rule filter_cong) (simp_all add: index_of_dom del: not_None_eq)
  have unf: "bm_line (index_of V) DI l M
               = bm_cells (index_of V) DI (doc_id l) counted (counter_keys counted) M"
    by (simp add: bm_line_def Let_def counted_def doc_id_def tokens_of_def)
  from inv have sh: "nrows M = length V" "ncols M = n"
    and ce: "cells M = (\<lambda>(i, j). if i < length V \<and> j < length done
                           then int (count_list (tokens_of (done ! j)) (V ! i)) else 0)"
    by (auto simp: cells_filled_def)
  have sub: "set (counter_keys counted) \<subseteq> set V"
    unfolding c by (auto simp: set_counter_keys)
  let ?M' = "M\<lparr>cells := (\<lambda>(i', j'). if j' = length done \<and> i' < length V
                                           \<and> V ! i' \<in> set (counter_keys counted)
                                       then int (count_list counted (V ! i'))
                                       else cells M (i', j'))\<rparr>"
  have j: "length done < ncols M" using lt sh(2) by simp
  have run: "bm_line (index_of V) DI l M = Inr ?M'"
    unfolding unf
    by (rule bm_cells_eq[where V = V and DI = DI and d = "doc_id l" and j = "length done"
                           and M = M and ws = "counter_keys counted" and counted = counted,
                         OF dV d j sh(1) sub])
  have "cells ?M' = (\<lambda>(i, j). if i < length V \<and> j < length (done @ [l])
                           then int (count_list (tokens_of ((done @ [l]) ! j)) (V ! i)) else 0)"
  proof (rule ext, clarify)
    fix i j
    show "cells ?M' (i, j) = (if i < length V \<and> j < length (done @ [l])
                           then int (count_list (tokens_of ((done @ [l]) ! j)) (V ! i)) else 0)"
    proof (cases "j = length done \<and> i < length V")
      case True
      then have vin: "V ! i \<in> set V" by simp
      have cnt: "count_list counted (V ! i) = count_list (tokens_of l) (V ! i)"
        unfolding c using vin by (rule count_list_filter_in)
      show ?thesis
      proof (cases "V ! i \<in> set counted")
        case True
        with \<open>j = length done \<and> i < length V\<close> cnt show ?thesis
          by (simp add: set_counter_keys)
      next
        case False
        then have "V ! i \<notin> set (tokens_of l)" using vin c by simp
        then have "count_list (tokens_of l) (V ! i) = 0"
          by (simp add: count_list_0_iff)
        with False \<open>j = length done \<and> i < length V\<close> ce show ?thesis
          by (simp add: set_counter_keys)
      qed
    next
      case False
      then show ?thesis using ce by (auto simp: nth_append)
    qed
  qed
  then have "cells_filled V n ?M' (done @ [l])"
    using sh by (simp add: cells_filled_def)
  with run show ?thesis by blast
qed

lemma bm_lines_filled:
  assumes "cells_filled V n M done" and "distinct V" and "distinct D" and "length D = n"
    and "prefix (map doc_id (done @ lines_read N i ls)) D"
  shows "\<exists>M'. bm_lines N (index_of V) (index_of D) i ls
                 \<lparr>matrixWordDoc = M, bm_iAbstract = a, bm_iAbstractsPreviousFiles = p\<rparr>
               = Inr \<lparr>matrixWordDoc = M', bm_iAbstract = index_after N i ls a,
                      bm_iAbstractsPreviousFiles = p\<rparr>
             \<and> cells_filled V n M' (done @ lines_read N i ls)"
  using assms
proof (induction ls arbitrary: i M "done" a)
  case Nil
  then show ?case by simp
next
  case (Cons l ls)
  show ?case
  proof (cases "i > N")
    case True
    with Cons.prems(1) show ?thesis by simp
  next
    case False
    let ?k = "length done"
    from Cons.prems(5) False
    have pre: "prefix (map doc_id done @ doc_id l # map doc_id (lines_read N (i + 1) ls)) D"
      by simp
    then obtain r where D: "D = map doc_id done @ doc_id l # r"
      by (auto simp: prefix_def)
    then have kl: "?k < length D" and kn: "D ! ?k = doc_id l"
      by (simp_all add: nth_append)
    have di: "index_of D (doc_id l) = Some ?k"
      using index_of_nth[OF Cons.prems(3) kl] kn by simp
    from bm_line_step[where DI = "index_of D" and l = l, OF Cons.prems(1,2) di] kl Cons.prems(4)
    obtain M1 where M1: "bm_line (index_of V) (index_of D) l M = Inr M1"
      and f1: "cells_filled V n M1 (done @ [l])"
      by auto
    have pre1: "prefix (map doc_id ((done @ [l]) @ lines_read N (i + 1) ls)) D"
      using pre by simp
    from Cons.IH[OF f1 Cons.prems(2,3,4) pre1, of "Some i"]
    obtain M' where
      "bm_lines N (index_of V) (index_of D) (i + 1) ls
         \<lparr>matrixWordDoc = M1, bm_iAbstract = Some i, bm_iAbstractsPreviousFiles = p\<rparr>
       = Inr \<lparr>matrixWordDoc = M', bm_iAbstract = index_after N (i + 1) ls (Some i),
              bm_iAbstractsPreviousFiles = p\<rparr>"
      and "cells_filled V n M' ((done @ [l]) @ lines_read N (i + 1) ls)"
      by blast
    with False M1 show ?thesis by simp
  qed
qed

lemma bm_files_filled:
  assumes "\<forall>p\<in>set ps. fs p \<noteq> None"
    and "a \<noteq> None \<or> ps = [] \<or> lines_of fs (hd ps) \<noteq> []"
    and "cells_filled V n M done" and "distinct V" and "distinct D" and "length D = n"
    and "prefix (map doc_id (done @ visited fs N prev a ps)) D"
  shows "\<exists>st'. bm_files fs N (index_of V) (index_of D) ps
                 \<lparr>matrixWordDoc = M, bm_iAbstract = a, bm_iAbstractsPreviousFiles = prev\<rparr>
               = Inr st'
             \<and> cells_filled V n (matrixWordDoc st') (done @ visited fs N prev a ps)"
  using assms
proof (induction ps arbitrary: a prev M "done")
  case Nil
  then show ?case by simp
next
  case (Cons p ps)
  from Cons.prems(1) obtain ls where f: "fs p = Some ls" by auto
  then have lo: "lines_of fs p = ls" by (simp add: lines_of_def)
  have "index_after N prev ls a \<noteq> None"
  proof (cases "a = None")
    case True
    with Cons.prems(2) lo have "ls \<noteq> []" by simp
    then show ?thesis by (rule index_after_nonempty)
  next
    case False
    then show ?thesis by (rule index_after_bound)
  qed
  then obtain i where i: "index_after N prev ls a = Some i" by auto
  have v: "visited fs N prev a (p # ps) = lines_read N prev ls @ visited fs N i (Some i) ps"
    using lo i by simp
  have pre: "prefix (map doc_id (done @ lines_read N prev ls)) D"
    using Cons.prems(7) unfolding v by (auto simp: prefix_def)
  from bm_lines_filled[OF Cons.prems(3,4,5,6) pre, of a prev]
  obtain M1 where
    l: "bm_lines N (index_of V) (index_of D) prev ls
          \<lparr>matrixWordDoc = M, bm_iAbstract = a, bm_iAbstractsPreviousFiles = prev\<rparr>
        = Inr \<lparr>matrixWordDoc = M1, bm_iAbstract = Some i, bm_iAbstractsPreviousFiles = prev\<rparr>"
    and f1: "cells_filled V n M1 (done @ lines_read N prev ls)"
    using i by auto
  have pre1: "prefix (map doc_id ((done @ lines_read N prev ls) @ visited fs N i (Some i) ps)) D"
    using Cons.prems(7) unfolding v by simp
  have "\<forall>p\<in>set ps. fs p \<noteq> None" using Cons.prems(1) by simp
  from Cons.IH[OF this _ f1 Cons.prems(4,5,6) pre1]
  obtain st' where
    "bm_files fs N (index_of V) (index_of D) ps
       \<lparr>matrixWordDoc = M1, bm_iAbstract = Some i, bm_iAbstractsPreviousFiles = i\<rparr> = Inr st'"
    and "cells_filled V n (matrixWordDoc st') ((done @ lines_read N prev ls) @ visited fs N i (Some i) ps)"
    by auto
  with f l v show ?case by simp
qed

lemma nth_map_upt_eq: "map (\<lambda>j. f (xs ! j)) [0..<length xs] = map f xs"
  by (rule nth_equalityI) auto

lemma count_sum_distinct:
  "distinct V \<Longrightarrow> (\<Sum>w\<leftarrow>V. int (count_list ts w)) = int (length (filter (\<lambda>t. t \<in> set V) ts))"
proof (induction ts)
  case Nil
  then show ?case by simp
next
  case (Cons t ts)
  have "(\<Sum>w\<leftarrow>V. int (count_list (t # ts) w))
          = (\<Sum>w\<leftarrow>V. int (count_list ts w) + (if t = w then 1 else 0))"
    by (intro arg_cong[where f = sum_list] map_cong) auto
  also have "\<dots> = (\<Sum>w\<leftarrow>V. int (count_list ts w)) + (\<Sum>w\<leftarrow>V. if t = w then 1 else 0)"
    by (simp add: sum_list_addf)
  also have "(\<Sum>w\<leftarrow>V. if t = w then 1 else 0) = (if t \<in> set V then 1 else (0::int))"
    using Cons.prems by (induction V) auto
  finally show ?case using Cons by simp
qed

lemma filled_row_sum:
  assumes "cells_filled V (length done) M done" and "i < length V"
  shows "row_sum M i = (\<Sum>l\<leftarrow>done. int (count_list (tokens_of l) (V ! i)))"
proof -
  have "map (\<lambda>j. cells M (i, j)) [0..<length done]
          = map (\<lambda>j. int (count_list (tokens_of (done ! j)) (V ! i))) [0..<length done]"
    using assms by (intro map_cong) (auto simp: cells_filled_def)
  also have "\<dots> = map (\<lambda>l. int (count_list (tokens_of l) (V ! i))) done"
    by (rule nth_map_upt_eq)
  finally show ?thesis using assms(1) by (simp add: row_sum_def cells_filled_def)
qed

lemma filled_col_sum:
  assumes "cells_filled V (length done) M done" and "distinct V" and "j < length done"
  shows "col_sum M j = int (length (filter (\<lambda>t. t \<in> set V) (tokens_of (done ! j))))"
proof -
  have "map (\<lambda>i. cells M (i, j)) [0..<length V]
          = map (\<lambda>i. int (count_list (tokens_of (done ! j)) (V ! i))) [0..<length V]"
    using assms by (intro map_cong) (auto simp: cells_filled_def)
  also have "\<dots> = map (\<lambda>w. int (count_list (tokens_of (done ! j)) w)) V"
    by (rule nth_map_upt_eq)
  finally show ?thesis
    using assms(1) count_sum_distinct[OF assms(2), of "tokens_of (done ! j)"]
    by (simp add: col_sum_def cells_filled_def)
qed

section \<open>Consistency of the matrix with the vocabulary and the document axis\<close>

lemma gwd_first_file_nonempty:
  assumes "gwd_files fs N L SW (p # ps) st = Inr st'" and "iAbstractsPreviousFiles st \<le> N"
    and "iAbstract st = None"
  shows "lines_of fs p \<noteq> []"
proof -
  from assms(1,2) obtain ls st1 i where
    f: "fs p = Some ls" and
    l: "gwd_lines N L SW (iAbstractsPreviousFiles st) ls st = Inr st1" and
    i: "iAbstract st1 = Some i"
    by (auto split: option.splits sum.splits)
  from gwd_lines_Docs[OF l] i assms(3) have "ls \<noteq> []" by auto
  with f show ?thesis by (simp add: lines_of_def)
qed

text \<open>
  C1 (amended). Let the first pass return the vocabulary and the document axis for a file
  list, a cap that is not negative, a minimum length and a stopword set; let the
  document IDs of the axis be pairwise distinct, and let every file of the list open.
  Then \<open>build_matrix\<close>, run on the same files and cap with that vocabulary and axis,
  returns a matrix. The documents it has counted are the first \<open>len(Docs)\<close> lines of the
  corpus, the axis lists their IDs in order, the row of every vocabulary word sums to the
  number of occurrences of the word among the tokens of these documents, and the column
  of every document sums to the number of its tokens that are vocabulary words.
\<close>

theorem C1_matrix_sums:
  assumes "get_words_and_documents fs PathList iMaxAbstracts iMinWordLength StopWords
             = Inr (WordsInCorpus, Docs')"
    and "distinct Docs'" and "0 \<le> iMaxAbstracts" and "\<forall>p\<in>set PathList. fs p \<noteq> None"
  shows "\<exists>M. build_matrix fs PathList WordsInCorpus Docs' iMaxAbstracts = Inr M
           \<and> Docs' = map doc_id (take (length Docs') (corpus fs PathList))
           \<and> (\<forall>i<length WordsInCorpus.
                 row_sum M i = (\<Sum>l\<leftarrow>take (length Docs') (corpus fs PathList).
                                   int (count_list (tokens_of l) (WordsInCorpus ! i))))
           \<and> (\<forall>j<length Docs'.
                 col_sum M j = int (length (filter (\<lambda>t. t \<in> set WordsInCorpus)
                                     (tokens_of (take (length Docs') (corpus fs PathList) ! j)))))"
proof -
  let ?st0 = "\<lparr>Words = {}, Docs = [], iAbstract = None, iAbstractsPreviousFiles = 0\<rparr>"
  let ?V = WordsInCorpus
  let ?D = "Docs'"
  from assms(1) obtain st where
    run: "gwd_files fs iMaxAbstracts iMinWordLength StopWords PathList ?st0 = Inr st" and
    V: "?V = sorted_list_of_set (Words st)" and D: "?D = Docs st"
    by (auto simp: get_words_and_documents_def split: sum.splits)
  define processed where "processed = visited fs iMaxAbstracts 0 None PathList"
  have Dp: "?D = map doc_id processed"
    using gwd_files_Docs[OF run] D by (simp add: processed_def)
  then have len: "length processed = length ?D" by simp
  have "prefix processed (corpus fs PathList)"
    unfolding processed_def by (rule visited_prefix)
  then have pt: "processed = take (length ?D) (corpus fs PathList)"
    using len by (auto simp: prefix_def)
  have dV: "distinct ?V" using V by simp
  have ne: "PathList = [] \<or> lines_of fs (hd PathList) \<noteq> []"
  proof (cases PathList)
    case Nil
    then show ?thesis by simp
  next
    case (Cons p ps)
    with run assms(3) gwd_first_file_nonempty[of fs iMaxAbstracts iMinWordLength StopWords p ps ?st0 st]
    show ?thesis by simp
  qed
  let ?M0 = "new_lil_matrix (length ?V) (length ?D)"
  have f0: "cells_filled ?V (length ?D) ?M0 []"
    by (simp add: cells_filled_def new_lil_matrix_def fun_eq_iff)
  have pre: "prefix (map doc_id ([] @ visited fs iMaxAbstracts 0 None PathList)) ?D"
    using Dp by (simp add: processed_def)
  from bm_files_filled[OF assms(4) _ f0 dV assms(2) refl pre] ne
  obtain st' where
    b: "bm_files fs iMaxAbstracts (index_of ?V) (index_of ?D) PathList
          \<lparr>matrixWordDoc = ?M0, bm_iAbstract = None, bm_iAbstractsPreviousFiles = 0\<rparr> = Inr st'"
    and fl: "cells_filled ?V (length ?D) (matrixWordDoc st') processed"
    by (auto simp: processed_def)
  have bm: "build_matrix fs PathList ?V ?D iMaxAbstracts = Inr (matrixWordDoc st')"
    using b by (simp add: build_matrix_def Let_def)
  have fl': "cells_filled ?V (length processed) (matrixWordDoc st') processed"
    using fl len by simp
  have rows: "\<forall>i<length ?V. row_sum (matrixWordDoc st') i
                = (\<Sum>l\<leftarrow>processed. int (count_list (tokens_of l) (?V ! i)))"
    using filled_row_sum[OF fl'] by blast
  have cols: "\<forall>j<length ?D. col_sum (matrixWordDoc st') j
                = int (length (filter (\<lambda>t. t \<in> set ?V) (tokens_of (processed ! j))))"
    using filled_col_sum[OF fl' dV] len by simp
  show ?thesis
    using bm Dp rows cols unfolding pt by blast
qed

text \<open>
  C1 as stated fails when a document ID occurs twice. Both lines are written to the
  column of the last occurrence of the ID: the row of \<open>aa\<close> sums to 1, while \<open>aa\<close>
  occurs three times in the two documents.
\<close>

theorem C1_duplicate_ids_counterexample:
  "get_words_and_documents [''a.txt'' \<mapsto> [''1 aa aa\<newline>'', ''1 aa\<newline>'']] [''a.txt''] 10 2 {}
     = Inr ([''aa''], [''1'', ''1''])
   \<and> map_sum id (\<lambda>M. row_sum M 0)
       (build_matrix [''a.txt'' \<mapsto> [''1 aa aa\<newline>'', ''1 aa\<newline>'']] [''a.txt'']
          [''aa''] [''1'', ''1''] 10) = Inr 1
   \<and> (\<Sum>l\<leftarrow>[''1 aa aa\<newline>'', ''1 aa\<newline>'']. int (count_list (tokens_of l) ''aa'')) = 3"
  by code_simp

theorem C1_matrix_sums_witness:
  "get_words_and_documents
      [''a.txt'' \<mapsto> [''1 aa bb aa\<newline>'', ''2 bb\<newline>''], ''b.txt'' \<mapsto> [''3 cc aa\<newline>'']]
      [''a.txt'', ''b.txt''] 10 2 {} = Inr ([''aa'', ''bb'', ''cc''], [''1'', ''2'', ''3''])
   \<and> distinct [''1'', ''2'', ''3'']
   \<and> (0::int) \<le> 10
   \<and> (\<exists>M. build_matrix
              [''a.txt'' \<mapsto> [''1 aa bb aa\<newline>'', ''2 bb\<newline>''], ''b.txt'' \<mapsto> [''3 cc aa\<newline>'']]
              [''a.txt'', ''b.txt''] [''aa'', ''bb'', ''cc''] [''1'', ''2'', ''3''] 10 = Inr M
          \<and> row_sum M 0 = 3 \<and> row_sum M 1 = 2 \<and> col_sum M 0 = 3 \<and> col_sum M 2 = 2)"
proof -
  let ?fs = "[''a.txt'' \<mapsto> [''1 aa bb aa\<newline>'', ''2 bb\<newline>''], ''b.txt'' \<mapsto> [''3 cc aa\<newline>'']]"
  let ?P = "[''a.txt'', ''b.txt'']"
  let ?V = "[''aa'', ''bb'', ''cc'']"
  let ?D = "[''1'', ''2'', ''3'']"
  have h1: "get_words_and_documents ?fs ?P 10 2 {} = Inr (?V, ?D)" by code_simp
  have h2: "distinct ?D" by simp
  have h3: "(0::int) \<le> 10" by simp
  have h4: "\<forall>p\<in>set ?P. ?fs p \<noteq> None" by simp
  have c: "take (length ?D) (corpus ?fs ?P) = [''1 aa bb aa\<newline>'', ''2 bb\<newline>'', ''3 cc aa\<newline>'']"
    by (simp add: corpus_def lines_of_def)
  have t: "tokens_of ''1 aa bb aa\<newline>'' = [''aa'', ''bb'', ''aa'']"
    "tokens_of ''2 bb\<newline>'' = [''bb'']" "tokens_of ''3 cc aa\<newline>'' = [''cc'', ''aa'']"
    by (simp_all add: tokens_of_def strip_def isspace_def)
  from C1_matrix_sums[OF h1 h2 h3 h4] obtain M where
    M: "build_matrix ?fs ?P ?V ?D 10 = Inr M" and
    r: "\<forall>i<length ?V. row_sum M i = (\<Sum>l\<leftarrow>take (length ?D) (corpus ?fs ?P).
                                   int (count_list (tokens_of l) (?V ! i)))" and
    cl: "\<forall>j<length ?D. col_sum M j = int (length (filter (\<lambda>t. t \<in> set ?V)
                                     (tokens_of (take (length ?D) (corpus ?fs ?P) ! j))))"
    by blast
  have "row_sum M 0 = 3" using r[rule_format, of 0] unfolding c by (simp add: t)
  moreover have "row_sum M 1 = 2" using r[rule_format, of 1] unfolding c by (simp add: t)
  moreover have "col_sum M 0 = 3" using cl[rule_format, of 0] unfolding c by (simp add: t)
  moreover have "col_sum M 2 = 2" using cl[rule_format, of 2] unfolding c by (simp add: t)
  ultimately show ?thesis using h1 M by auto
qed

section \<open>The vocabulary of the first pass\<close>

lemma gwd_lines_Words:
  "gwd_lines N L SW i ls st = Inr st' \<Longrightarrow>
     Words st' = Words st \<union> {t. \<exists>l\<in>set (lines_read N i ls).
                                   t \<in> set (tokens_of l) - SW \<and> \<not> token_dropped L t}"
proof (induction ls arbitrary: i st)
  case Nil
  then show ?case by simp
next
  case (Cons l ls)
  show ?case
  proof (cases "i > N")
    case True
    with Cons.prems show ?thesis by auto
  next
    case False
    with Cons.prems obtain st1 where
      l: "gwd_line L SW l (st\<lparr>iAbstract := Some i\<rparr>) = Inr st1" and
      r: "gwd_lines N L SW (i + 1) ls st1 = Inr st'"
      by (auto split: sum.splits)
    from l have "Words st1 = Words st \<union> {t \<in> set (tokens_of l) - SW. \<not> token_dropped L t}"
      by (auto simp: gwd_line_eq split: if_splits)
    with Cons.IH[OF r] False show ?thesis by auto
  qed
qed

lemma gwd_files_Words:
  "gwd_files fs N L SW ps st = Inr st' \<Longrightarrow>
   iAbstract st = None \<or> iAbstract st = Some (iAbstractsPreviousFiles st) \<Longrightarrow>
     Words st' = Words st
       \<union> {t. \<exists>l\<in>set (visited fs N (iAbstractsPreviousFiles st) (iAbstract st) ps).
                 t \<in> set (tokens_of l) - SW \<and> \<not> token_dropped L t}"
proof (induction ps arbitrary: st)
  case Nil
  then show ?case by simp
next
  case (Cons p ps)
  show ?case
  proof (cases "iAbstractsPreviousFiles st > N")
    case True
    then have "visited fs N (iAbstractsPreviousFiles st) (iAbstract st) (p # ps) = []"
      using Cons.prems(2) by (rule visited_beyond)
    with True Cons.prems(1) show ?thesis by simp
  next
    case False
    with Cons.prems(1) obtain ls st1 i where
      f: "fs p = Some ls" and
      l: "gwd_lines N L SW (iAbstractsPreviousFiles st) ls st = Inr st1" and
      i: "iAbstract st1 = Some i" and
      r: "gwd_files fs N L SW ps (st1\<lparr>iAbstractsPreviousFiles := i\<rparr>) = Inr st'"
      by (auto split: option.splits sum.splits)
    from gwd_lines_Docs[OF l] i
    have a: "index_after N (iAbstractsPreviousFiles st) ls (iAbstract st) = Some i" by simp
    have v: "visited fs N (iAbstractsPreviousFiles st) (iAbstract st) (p # ps)
               = lines_read N (iAbstractsPreviousFiles st) ls @ visited fs N i (Some i) ps"
      using f a by (simp add: lines_of_def)
    have "Words st' = Words st1
            \<union> {t. \<exists>l\<in>set (visited fs N i (Some i) ps).
                     t \<in> set (tokens_of l) - SW \<and> \<not> token_dropped L t}"
      using Cons.IH[OF r] i by simp
    with gwd_lines_Words[OF l] show ?thesis unfolding v by auto
  qed
qed

text \<open>
  What the first pass returns as the vocabulary: the sorted list of the tokens of the
  processed lines that are no stopwords and that none of the four tests of the token
  loop drops.
\<close>

lemma gwd_vocabulary:
  assumes "get_words_and_documents fs PathList iMaxAbstracts iMinWordLength StopWords
             = Inr (V, D)"
  shows "V = sorted_list_of_set
               {t. \<exists>l\<in>set (take (length D) (corpus fs PathList)).
                     t \<in> set (tokens_of l) - StopWords \<and> \<not> token_dropped iMinWordLength t}"
proof -
  let ?st0 = "\<lparr>Words = {}, Docs = [], iAbstract = None, iAbstractsPreviousFiles = 0\<rparr>"
  from assms obtain st where
    run: "gwd_files fs iMaxAbstracts iMinWordLength StopWords PathList ?st0 = Inr st" and
    V: "V = sorted_list_of_set (Words st)" and D: "D = Docs st"
    by (auto simp: get_words_and_documents_def split: sum.splits)
  define processed where "processed = visited fs iMaxAbstracts 0 None PathList"
  have "D = map doc_id processed"
    using gwd_files_Docs[OF run] D by (simp add: processed_def)
  then have len: "length processed = length D" by simp
  have "prefix processed (corpus fs PathList)"
    unfolding processed_def by (rule visited_prefix)
  then have pt: "processed = take (length D) (corpus fs PathList)"
    using len by (auto simp: prefix_def)
  have "Words st = {t. \<exists>l\<in>set processed.
                      t \<in> set (tokens_of l) - StopWords \<and> \<not> token_dropped iMinWordLength t}"
    using gwd_files_Words[OF run] by (simp add: processed_def)
  then show ?thesis unfolding V pt by simp
qed

section \<open>The numeric filter of the first pass\<close>

text \<open>
  C2. The vocabulary is not the set of tokens that pass the five filters as the
  specification words them. The token \<open>3d\<close> is no stopword, has no double hyphen and no
  leading hyphen, is not numeric (\<open>numeric_token\<close>) and has two characters, yet the first
  pass drops it: \<open>rxNum.match\<close> looks at the start of the token only and asks for a
  single character of the class, so every token that begins with a digit, a period or a
  comma (after an optional sign) counts as a number.
\<close>

theorem C2_digit_initial_token_dropped:
  "\<not> numeric_token ''3d'' \<and> rxNum_match ''3d''
   \<and> get_words_and_documents [''a.txt'' \<mapsto> [''1 3d scan\<newline>'']] [''a.txt''] 10 2 {}
       = Inr ([''scan''], [''1''])"
  by code_simp

section \<open>Determinism of the first pass\<close>

text \<open>The first pass reads the file system at the paths of its list only.\<close>

lemma gwd_files_cong:
  "\<forall>p\<in>set ps. fs p = fs' p \<Longrightarrow>
     gwd_files fs N L SW ps st = gwd_files fs' N L SW ps st"
proof (induction ps arbitrary: st)
  case Nil
  then show ?case by simp
next
  case (Cons p ps)
  then have "fs p = fs' p" and "\<forall>q\<in>set ps. fs q = fs' q" by simp_all
  with Cons.IH show ?case
    by (simp split: option.splits sum.splits)
qed

text \<open>
  C4. The result of \<open>get_words_and_documents\<close> is a function of the contents of the files
  of the list, in the order of the list, and of the three parameters: two runs on file
  systems that agree on the listed files return the same result, the same error or the
  same pair of lists, element by element. The vocabulary list is sorted and without
  repetition, so its order is fixed by its elements. (Logging and the clock take no
  part in the result.)
\<close>

theorem C4_same_files_same_result:
  assumes "\<forall>p\<in>set PathList. fs p = fs' p"
  shows "get_words_and_documents fs PathList iMaxAbstracts iMinWordLength StopWords
           = get_words_and_documents fs' PathList iMaxAbstracts iMinWordLength StopWords
       \<and> (\<forall>V D. get_words_and_documents fs PathList iMaxAbstracts iMinWordLength StopWords
                   = Inr (V, D) \<longrightarrow> sorted V \<and> distinct V)"
proof -
  have "get_words_and_documents fs PathList iMaxAbstracts iMinWordLength StopWords
           = get_words_and_documents fs' PathList iMaxAbstracts iMinWordLength StopWords"
    using gwd_files_cong[OF assms] by (simp add: get_words_and_documents_def)
  moreover have "sorted V \<and> distinct V"
    if "get_words_and_documents fs PathList iMaxAbstracts iMinWordLength StopWords = Inr (V, D)"
    for V D
    using that by (auto simp: get_words_and_documents_def split: sum.splits)
  ultimately show ?thesis by blast
qed

theorem C4_same_files_same_result_witness:
  "[''a.txt'' \<mapsto> [''2 zeta alpha\<newline>'', ''1 beta alpha\<newline>''], ''b.txt'' \<mapsto> [''9 omega\<newline>'']] ''a.txt''
     = [''a.txt'' \<mapsto> [''2 zeta alpha\<newline>'', ''1 beta alpha\<newline>'']] ''a.txt''
   \<and> get_words_and_documents
        [''a.txt'' \<mapsto> [''2 zeta alpha\<newline>'', ''1 beta alpha\<newline>''], ''b.txt'' \<mapsto> [''9 omega\<newline>'']]
        [''a.txt''] 10 2 {}
     = get_words_and_documents [''a.txt'' \<mapsto> [''2 zeta alpha\<newline>'', ''1 beta alpha\<newline>'']]
        [''a.txt''] 10 2 {}
   \<and> get_words_and_documents [''a.txt'' \<mapsto> [''2 zeta alpha\<newline>'', ''1 beta alpha\<newline>'']]
        [''a.txt''] 10 2 {}
     = Inr ([''alpha'', ''beta'', ''zeta''], [''2'', ''1''])"
proof -
  let ?fs = "[''a.txt'' \<mapsto> [''2 zeta alpha\<newline>'', ''1 beta alpha\<newline>''], ''b.txt'' \<mapsto> [''9 omega\<newline>'']]"
  let ?fs' = "[''a.txt'' \<mapsto> [''2 zeta alpha\<newline>'', ''1 beta alpha\<newline>'']]"
  have h: "\<forall>p\<in>set [''a.txt'']. ?fs p = ?fs' p" by simp
  have v: "get_words_and_documents ?fs' [''a.txt''] 10 2 {}
             = Inr ([''alpha'', ''beta'', ''zeta''], [''2'', ''1''])"
    by code_simp
  have e: "get_words_and_documents ?fs [''a.txt''] 10 2 {}
             = get_words_and_documents ?fs' [''a.txt''] 10 2 {}"
    by (rule conjunct1[OF C4_same_files_same_result[OF h, of 10 2 "{}"]])
  have a: "?fs ''a.txt'' = ?fs' ''a.txt''" by simp
  show ?thesis by (intro conjI) (rule a, rule e, rule v)
qed

section \<open>No capacity ceiling in the matrix pass\<close>

lemma index_fold_bound:
  assumes f: "\<And>i y m. f (i, y) m = m(y \<mapsto> i)"
  shows "fold f (enumerate n xs) m x = Some i \<Longrightarrow> m x = Some i \<or> (n \<le> i \<and> i < n + length xs)"
proof (induction xs arbitrary: n m)
  case Nil
  then show ?case by simp
next
  case (Cons y ys)
  from Cons.prems have "fold f (enumerate (Suc n) ys) (m(y \<mapsto> n)) x = Some i"
    by (simp add: f)
  from Cons.IH[OF this] show ?case
    by (auto split: if_splits)
qed

lemma index_of_bound: "index_of xs x = Some i \<Longrightarrow> i < length xs"
  using index_fold_bound[of "\<lambda>(i, x) m. m(x \<mapsto> i)" 0 xs Map.empty x i]
  by (simp add: index_of_def)

lemma bm_cells_total:
  assumes "\<forall>w\<in>set ws. WI w \<noteq> None" and "\<And>w i. WI w = Some i \<Longrightarrow> i < nrows M"
    and "DI d = Some j" and "j < ncols M"
  shows "\<exists>M'. bm_cells WI DI d counted ws M = Inr M' \<and> nrows M' = nrows M \<and> ncols M' = ncols M"
  using assms
proof (induction ws arbitrary: M)
  case Nil
  then show ?case by simp
next
  case (Cons w ws)
  from Cons.prems(1) obtain i where i: "WI w = Some i" by auto
  then have il: "i < nrows M" by (rule Cons.prems(2))
  let ?M1 = "M\<lparr>cells := (cells M)((i, j) := int (count_list counted w))\<rparr>"
  have s: "setitem M i j (int (count_list counted w)) = Inr ?M1"
    using il Cons.prems(4) by (simp add: setitem_def)
  have "\<exists>M'. bm_cells WI DI d counted ws ?M1 = Inr M' \<and> nrows M' = nrows ?M1
              \<and> ncols M' = ncols ?M1"
    using Cons.prems by (intro Cons.IH) auto
  with i Cons.prems(3) s show ?case by simp
qed

lemma bm_line_total:
  assumes "nrows M = length V" and "ncols M = length D" and "doc_id l \<in> set D"
  shows "\<exists>M'. bm_line (index_of V) (index_of D) l M = Inr M'
              \<and> nrows M' = nrows M \<and> ncols M' = ncols M"
proof -
  define counted where "counted = filter (\<lambda>w. index_of V w \<noteq> None) (tokens_of l)"
  have unf: "bm_line (index_of V) (index_of D) l M
               = bm_cells (index_of V) (index_of D) (doc_id l) counted (counter_keys counted) M"
    by (simp add: bm_line_def Let_def counted_def doc_id_def tokens_of_def)
  have k: "\<forall>w\<in>set (counter_keys counted). index_of V w \<noteq> None"
    unfolding set_counter_keys counted_def by simp
  from assms(3) have "index_of D (doc_id l) \<noteq> None" by (simp add: index_of_dom del: not_None_eq)
  then obtain j where j: "index_of D (doc_id l) = Some j" by auto
  then have jl: "j < ncols M" using index_of_bound[OF j] assms(2) by simp
  have b: "\<And>w i. index_of V w = Some i \<Longrightarrow> i < nrows M"
    using index_of_bound assms(1) by simp
  show ?thesis
    unfolding unf
    by (rule bm_cells_total[where WI = "index_of V" and DI = "index_of D" and j = j,
             OF k b j jl])
qed

lemma bm_lines_total:
  assumes "nrows M = length V" and "ncols M = length D" and "\<forall>l\<in>set ls. doc_id l \<in> set D"
  shows "\<exists>M'. bm_lines N (index_of V) (index_of D) i ls
                 \<lparr>matrixWordDoc = M, bm_iAbstract = a, bm_iAbstractsPreviousFiles = p\<rparr>
               = Inr \<lparr>matrixWordDoc = M', bm_iAbstract = index_after N i ls a,
                      bm_iAbstractsPreviousFiles = p\<rparr>
             \<and> nrows M' = length V \<and> ncols M' = length D"
  using assms
proof (induction ls arbitrary: i M a)
  case Nil
  then show ?case by simp
next
  case (Cons l ls)
  show ?case
  proof (cases "i > N")
    case True
    with Cons.prems show ?thesis by simp
  next
    case False
    from Cons.prems(3) have dl: "doc_id l \<in> set D" by simp
    from bm_line_total[OF Cons.prems(1,2) dl]
    obtain M1 where M1: "bm_line (index_of V) (index_of D) l M = Inr M1"
      and sh: "nrows M1 = length V" "ncols M1 = length D"
      using Cons.prems(1,2) by auto
    have "\<forall>l\<in>set ls. doc_id l \<in> set D" using Cons.prems(3) by simp
    from Cons.IH[OF sh this, of "i + 1" "Some i"]
    obtain M' where
      "bm_lines N (index_of V) (index_of D) (i + 1) ls
         \<lparr>matrixWordDoc = M1, bm_iAbstract = Some i, bm_iAbstractsPreviousFiles = p\<rparr>
       = Inr \<lparr>matrixWordDoc = M', bm_iAbstract = index_after N (i + 1) ls (Some i),
              bm_iAbstractsPreviousFiles = p\<rparr>"
      and "nrows M' = length V" "ncols M' = length D"
      by blast
    with False M1 show ?thesis by simp
  qed
qed

lemma bm_files_total:
  assumes "\<forall>p\<in>set ps. fs p \<noteq> None"
    and "a \<noteq> None \<or> ps = [] \<or> lines_of fs (hd ps) \<noteq> []"
    and "nrows M = length V" and "ncols M = length D"
    and "\<forall>l\<in>set (corpus fs ps). doc_id l \<in> set D"
  shows "\<exists>st'. bm_files fs N (index_of V) (index_of D) ps
                 \<lparr>matrixWordDoc = M, bm_iAbstract = a, bm_iAbstractsPreviousFiles = prev\<rparr>
               = Inr st'
             \<and> nrows (matrixWordDoc st') = length V \<and> ncols (matrixWordDoc st') = length D"
  using assms
proof (induction ps arbitrary: a prev M)
  case Nil
  then show ?case by simp
next
  case (Cons p ps)
  from Cons.prems(1) obtain ls where f: "fs p = Some ls" by auto
  then have lo: "lines_of fs p = ls" by (simp add: lines_of_def)
  have "index_after N prev ls a \<noteq> None"
  proof (cases "a = None")
    case True
    with Cons.prems(2) lo have "ls \<noteq> []" by simp
    then show ?thesis by (rule index_after_nonempty)
  next
    case False
    then show ?thesis by (rule index_after_bound)
  qed
  then obtain i where i: "index_after N prev ls a = Some i" by auto
  have c1: "\<forall>l\<in>set ls. doc_id l \<in> set D"
    using Cons.prems(5) lo by (simp add: corpus_def)
  have c2: "\<forall>l\<in>set (corpus fs ps). doc_id l \<in> set D"
    using Cons.prems(5) by (simp add: corpus_def)
  from bm_lines_total[OF Cons.prems(3,4) c1, of N prev a prev]
  obtain M1 where
    l: "bm_lines N (index_of V) (index_of D) prev ls
          \<lparr>matrixWordDoc = M, bm_iAbstract = a, bm_iAbstractsPreviousFiles = prev\<rparr>
        = Inr \<lparr>matrixWordDoc = M1, bm_iAbstract = Some i, bm_iAbstractsPreviousFiles = prev\<rparr>"
    and sh: "nrows M1 = length V" "ncols M1 = length D"
    using i by auto
  have "\<forall>p\<in>set ps. fs p \<noteq> None" using Cons.prems(1) by simp
  from Cons.IH[OF this _ sh c2, of "Some i" i]
  obtain st' where
    "bm_files fs N (index_of V) (index_of D) ps
       \<lparr>matrixWordDoc = M1, bm_iAbstract = Some i, bm_iAbstractsPreviousFiles = i\<rparr> = Inr st'"
    and "nrows (matrixWordDoc st') = length V" "ncols (matrixWordDoc st') = length D"
    by auto
  with f l show ?case by simp
qed

text \<open>
  C5 (amended). \<open>build_matrix\<close> tracks no matrix size or density and checks no capacity
  ceiling. Whatever the sizes of the vocabulary, the axis and the corpus are, it returns
  a matrix of \<open>len(WordsInCorpus)\<close> rows and \<open>len(Docs)\<close> columns whenever every file of
  the list opens, the first file has a line and the document ID of every line is in
  \<open>Docs\<close>. The only configured bound is the document cap, and lines beyond it are
  skipped without an error.
\<close>

theorem C5_no_capacity_ceiling:
  assumes "\<forall>p\<in>set PathList. fs p \<noteq> None"
    and "PathList = [] \<or> lines_of fs (hd PathList) \<noteq> []"
    and "\<forall>l\<in>set (corpus fs PathList). doc_id l \<in> set Docs'"
  shows "\<exists>M. build_matrix fs PathList WordsInCorpus Docs' iMaxAbstracts = Inr M
           \<and> nrows M = length WordsInCorpus \<and> ncols M = length Docs'"
proof -
  let ?M0 = "new_lil_matrix (length WordsInCorpus) (length Docs')"
  have sh: "nrows ?M0 = length WordsInCorpus" "ncols ?M0 = length Docs'"
    by (simp_all add: new_lil_matrix_def)
  from bm_files_total[OF assms(1) _ sh assms(3), of None iMaxAbstracts 0] assms(2)
  obtain st' where
    "bm_files fs iMaxAbstracts (index_of WordsInCorpus) (index_of Docs') PathList
       \<lparr>matrixWordDoc = ?M0, bm_iAbstract = None, bm_iAbstractsPreviousFiles = 0\<rparr> = Inr st'"
    and "nrows (matrixWordDoc st') = length WordsInCorpus"
    and "ncols (matrixWordDoc st') = length Docs'"
    by auto
  then show ?thesis by (simp add: build_matrix_def Let_def)
qed

text \<open>
  C5 as stated fails: no ceiling is checked. The only configured bound is the document
  cap; a corpus of three documents exceeds a cap of 1, and both passes return normally,
  with a matrix of two columns and no error.
\<close>

theorem C5_cap_exceeded_counterexample:
  "length (corpus [''a.txt'' \<mapsto> [''1 aa\<newline>'', ''2 bb\<newline>'', ''3 cc\<newline>'']] [''a.txt'']) = 3
   \<and> get_words_and_documents [''a.txt'' \<mapsto> [''1 aa\<newline>'', ''2 bb\<newline>'', ''3 cc\<newline>'']] [''a.txt'']
        1 2 {} = Inr ([''aa'', ''bb''], [''1'', ''2''])
   \<and> map_sum id (\<lambda>M. (nrows M, ncols M))
        (build_matrix [''a.txt'' \<mapsto> [''1 aa\<newline>'', ''2 bb\<newline>'', ''3 cc\<newline>'']] [''a.txt'']
           [''aa'', ''bb''] [''1'', ''2''] 1) = Inr (2, 2)"
  by code_simp

theorem C5_no_capacity_ceiling_witness:
  "[''a.txt'' \<mapsto> [''1 aa\<newline>'', ''2 bb\<newline>'']] ''a.txt'' \<noteq> None
   \<and> lines_of [''a.txt'' \<mapsto> [''1 aa\<newline>'', ''2 bb\<newline>'']] (hd [''a.txt'']) \<noteq> []
   \<and> doc_id ''1 aa\<newline>'' \<in> set [''1'', ''2''] \<and> doc_id ''2 bb\<newline>'' \<in> set [''1'', ''2'']
   \<and> (\<exists>M. build_matrix [''a.txt'' \<mapsto> [''1 aa\<newline>'', ''2 bb\<newline>'']] [''a.txt'']
              [''aa'', ''bb''] [''1'', ''2''] 0 = Inr M \<and> nrows M = 2 \<and> ncols M = 2)"
proof -
  let ?fs = "[''a.txt'' \<mapsto> [''1 aa\<newline>'', ''2 bb\<newline>'']]"
  have d: "doc_id ''1 aa\<newline>'' = ''1''" "doc_id ''2 bb\<newline>'' = ''2''"
    by (simp_all add: doc_id_def strip_def isspace_def)
  have h1: "\<forall>p\<in>set [''a.txt'']. ?fs p \<noteq> None" by simp
  have h2: "[''a.txt''] = [] \<or> lines_of ?fs (hd [''a.txt'']) \<noteq> []"
    by (simp add: lines_of_def)
  have h3: "\<forall>l\<in>set (corpus ?fs [''a.txt'']). doc_id l \<in> set [''1'', ''2'']"
    by (simp add: corpus_def lines_of_def d)
  from C5_no_capacity_ceiling[OF h1 h2 h3, of "[''aa'', ''bb'']" 0]
  have "\<exists>M. build_matrix ?fs [''a.txt''] [''aa'', ''bb''] [''1'', ''2''] 0 = Inr M
           \<and> nrows M = 2 \<and> ncols M = 2"
    by (simp add: numeral_2_eq_2)
  moreover have "?fs ''a.txt'' \<noteq> None" by simp
  moreover have "lines_of ?fs (hd [''a.txt'']) \<noteq> []" by (simp add: lines_of_def)
  ultimately show ?thesis using d by simp
qed

section \<open>The failure policy of the ID-driven assembler\<close>



section \<open>The IDs of the bibliographic importer\<close>

lemma foldl_last_line: "foldl (\<lambda>sLine l. l) d xs = (if xs = [] then d else last xs)"
  by (induction xs arbitrary: d) auto

lemma read_title_nonempty: "read_title ls = (Some t, r) \<Longrightarrow> t \<noteq> []"
  by (induction ls) (auto split: if_splits)

lemma ProcessNextAbstract_valid:
  assumes "read_title (imp_strIn st) = (Some sTitle, r1)"
    and "strip (fst (readline r1)) \<noteq> []"
    and "strip (fst (readline (snd (readline r1)))) \<noteq> []"
  shows "ProcessNextAbstract st iID =
           (Some (iID + 1),
            st\<lparr>imp_strIn := snd (readline (snd (readline r1))),
                imp_strIndex := imp_strIndex st @ [index_line iID (strip (fst (readline r1))) sTitle],
                imp_strOut := imp_strOut st
                   @ [corpus_line iID (strip (fst (readline (snd (readline r1)))))]\<rparr>)"
  using assms read_title_nonempty[OF assms(1)]
  by (simp add: ProcessNextAbstract_def Let_def)

lemma ProcessNextAbstract_dropped:
  assumes "read_title (imp_strIn st) = (Some sTitle, r1)"
    and "strip (fst (readline r1)) = [] \<or> strip (fst (readline (snd (readline r1)))) = []"
  shows "fst (ProcessNextAbstract st iID) = Some iID
       \<and> imp_strIndex (snd (ProcessNextAbstract st iID)) = imp_strIndex st
       \<and> imp_strOut (snd (ProcessNextAbstract st iID)) = imp_strOut st
       \<and> length (imp_stderr (snd (ProcessNextAbstract st iID))) = length (imp_stderr st) + 1"
  using assms by (auto simp: ProcessNextAbstract_def Let_def)

lemma ProcessNextAbstract_cases:
  assumes "ProcessNextAbstract st iID = (r, st')"
  shows "((r = None \<or> r = Some iID) \<and> imp_strIndex st' = imp_strIndex st
            \<and> imp_strOut st' = imp_strOut st)
       \<or> (r = Some (iID + 1)
            \<and> (\<exists>a t x. imp_strIndex st' = imp_strIndex st @ [index_line iID a t]
                       \<and> imp_strOut st' = imp_strOut st @ [corpus_line iID x]))"
proof (cases "read_title (imp_strIn st)")
  case (Pair o1 r1)
  show ?thesis
  proof (cases o1)
    case None
    with Pair assms show ?thesis by (auto simp: ProcessNextAbstract_def)
  next
    case (Some sTitle)
    with Pair have t: "read_title (imp_strIn st) = (Some sTitle, r1)" by simp
    show ?thesis
    proof (cases "strip (fst (readline r1)) = [] \<or> strip (fst (readline (snd (readline r1)))) = []")
      case True
      from ProcessNextAbstract_dropped[OF t True, of iID] assms show ?thesis by simp
    next
      case False
      then have "strip (fst (readline r1)) \<noteq> []"
        and "strip (fst (readline (snd (readline r1)))) \<noteq> []" by simp_all
      from ProcessNextAbstract_valid[OF t this, of iID] assms show ?thesis by auto
    qed
  qed
qed

lemma index_line_shift:
  "map (\<lambda>(k, a, t, x). index_line (i + int k) a t) (enumerate (Suc n) rs)
     = map (\<lambda>(k, a, t, x). index_line (i + 1 + int k) a t) (enumerate n rs)"
  by (induction rs arbitrary: n) (auto simp: algebra_simps)

lemma corpus_line_shift:
  "map (\<lambda>(k, a, t, x). corpus_line (i + int k) x) (enumerate (Suc n) rs)
     = map (\<lambda>(k, a, t, x). corpus_line (i + 1 + int k) x) (enumerate n rs)"
  by (induction rs arbitrary: n) (auto simp: algebra_simps)

lemma main_loop_ids:
  "1 \<le> iID \<Longrightarrow>
     \<exists>recs. imp_strIndex (main_loop st iID)
               = imp_strIndex st @ map (\<lambda>(k, a, t, x). index_line (iID + int k) a t) (enumerate 0 recs)
           \<and> imp_strOut (main_loop st iID)
               = imp_strOut st @ map (\<lambda>(k, a, t, x). corpus_line (iID + int k) x) (enumerate 0 recs)"
proof (induction st iID rule: main_loop.induct)
  case (1 st iID)
  obtain r st' where p: "ProcessNextAbstract st iID = (r, st')" by (cases "ProcessNextAbstract st iID")
  from ProcessNextAbstract_cases[OF p]
  consider (same) "r = None \<or> r = Some iID" "imp_strIndex st' = imp_strIndex st"
      "imp_strOut st' = imp_strOut st"
    | (new) a t x where "r = Some (iID + 1)"
      "imp_strIndex st' = imp_strIndex st @ [index_line iID a t]"
      "imp_strOut st' = imp_strOut st @ [corpus_line iID x]"
    by blast
  then show ?case
  proof cases
    case same
    then have r: "r = None \<or> r = Some iID" and i: "imp_strIndex st' = imp_strIndex st"
      and o: "imp_strOut st' = imp_strOut st" by simp_all
    show ?thesis
    proof (cases r)
      case None
      with p i o have "imp_strIndex (main_loop st iID) = imp_strIndex st"
        "imp_strOut (main_loop st iID) = imp_strOut st"
        by (simp_all add: main_loop.simps[of st iID])
      then show ?thesis by (intro exI[of _ "[]"]) simp
    next
      case (Some m)
      with r have m: "m = iID" by simp
      with "1.prems" have nz: "m \<noteq> 0" and ge: "1 \<le> m" by simp_all
      from "1.IH"[OF p[symmetric] Some nz ge] m
      obtain recs where
        "imp_strIndex (main_loop st' iID)
               = imp_strIndex st' @ map (\<lambda>(k, a, t, x). index_line (iID + int k) a t) (enumerate 0 recs)"
        "imp_strOut (main_loop st' iID)
               = imp_strOut st' @ map (\<lambda>(k, a, t, x). corpus_line (iID + int k) x) (enumerate 0 recs)"
        by auto
      moreover have "main_loop st iID = main_loop st' iID"
        using p Some m nz by (simp add: main_loop.simps[of st iID])
      ultimately show ?thesis using i o by auto
    qed
  next
    case (new a t x)
    then have r: "r = Some (iID + 1)"
      and i: "imp_strIndex st' = imp_strIndex st @ [index_line iID a t]"
      and o: "imp_strOut st' = imp_strOut st @ [corpus_line iID x]" by simp_all
    from "1.prems" have nz: "iID + 1 \<noteq> 0" and ge: "1 \<le> iID + 1" by simp_all
    from "1.IH"[OF p[symmetric] r nz ge]
    obtain recs where
      ri: "imp_strIndex (main_loop st' (iID + 1))
               = imp_strIndex st' @ map (\<lambda>(k, a, t, x). index_line (iID + 1 + int k) a t) (enumerate 0 recs)"
      and ro: "imp_strOut (main_loop st' (iID + 1))
               = imp_strOut st' @ map (\<lambda>(k, a, t, x). corpus_line (iID + 1 + int k) x) (enumerate 0 recs)"
      by auto
    have e: "main_loop st iID = main_loop st' (iID + 1)"
      using p r nz by (simp add: main_loop.simps[of st iID])
    show ?thesis
      unfolding e ri ro i o
      by (intro exI[of _ "(a, t, x) # recs"]) (simp add: index_line_shift corpus_line_shift)
  qed
qed

text \<open>
  C8 (amended). Without an index file the first ID is 1; with one, it is one more than
  the ID on the last line of the file (the maximum of the file when its IDs ascend, as
  in a file that the importer wrote). A record whose authors and text are not empty is
  written to the index and to the corpus under the current ID, and the next ID is one
  more; a record with an empty authors or text field is reported on the error stream,
  writes nothing to the index or the corpus and leaves the ID as it is, so the next valid
  record receives it. Over a whole run that starts at an ID of at least 1, the records
  written carry the IDs \<open>iID, iID + 1, ...\<close> in order, without a gap.
\<close>

theorem C8_sequential_ids:
  "GetCmdLineParameters_iID py_int NoIndex = Inr 1
   \<and> (strIndex \<noteq> [] \<and> py_int (hd (split_on (CHR 0x09) (last strIndex))) = Some n \<longrightarrow>
        GetCmdLineParameters_iID py_int (IndexLines strIndex) = Inr (n + 1))
   \<and> (read_title (imp_strIn st) = (Some sTitle, r1)
        \<and> strip (fst (readline r1)) \<noteq> []
        \<and> strip (fst (readline (snd (readline r1)))) \<noteq> [] \<longrightarrow>
        fst (ProcessNextAbstract st iID) = Some (iID + 1)
        \<and> imp_strIndex (snd (ProcessNextAbstract st iID))
            = imp_strIndex st @ [index_line iID (strip (fst (readline r1))) sTitle]
        \<and> imp_strOut (snd (ProcessNextAbstract st iID))
            = imp_strOut st @ [corpus_line iID (strip (fst (readline (snd (readline r1)))))])
   \<and> (read_title (imp_strIn st) = (Some sTitle, r1)
        \<and> (strip (fst (readline r1)) = [] \<or> strip (fst (readline (snd (readline r1)))) = [])
        \<longrightarrow>
        fst (ProcessNextAbstract st iID) = Some iID
        \<and> imp_strIndex (snd (ProcessNextAbstract st iID)) = imp_strIndex st
        \<and> imp_strOut (snd (ProcessNextAbstract st iID)) = imp_strOut st
        \<and> length (imp_stderr (snd (ProcessNextAbstract st iID))) = length (imp_stderr st) + 1)
   \<and> (1 \<le> iID \<longrightarrow>
        (\<exists>recs. imp_strIndex (main_loop st iID)
                  = imp_strIndex st
                    @ map (\<lambda>(k, a, t, x). index_line (iID + int k) a t) (enumerate 0 recs)
              \<and> imp_strOut (main_loop st iID)
                  = imp_strOut st
                    @ map (\<lambda>(k, a, t, x). corpus_line (iID + int k) x) (enumerate 0 recs)))"
proof (intro conjI impI)
  show "GetCmdLineParameters_iID py_int NoIndex = Inr 1"
    by (simp add: GetCmdLineParameters_iID_def)
next
  assume "strIndex \<noteq> [] \<and> py_int (hd (split_on (CHR 0x09) (last strIndex))) = Some n"
  then show "GetCmdLineParameters_iID py_int (IndexLines strIndex) = Inr (n + 1)"
    by (simp add: GetCmdLineParameters_iID_def foldl_last_line)
next
  assume a: "read_title (imp_strIn st) = (Some sTitle, r1)
        \<and> strip (fst (readline r1)) \<noteq> []
        \<and> strip (fst (readline (snd (readline r1)))) \<noteq> []"
  then have v: "ProcessNextAbstract st iID =
           (Some (iID + 1),
            st\<lparr>imp_strIn := snd (readline (snd (readline r1))),
                imp_strIndex := imp_strIndex st @ [index_line iID (strip (fst (readline r1))) sTitle],
                imp_strOut := imp_strOut st
                   @ [corpus_line iID (strip (fst (readline (snd (readline r1)))))]\<rparr>)"
    by (intro ProcessNextAbstract_valid) simp_all
  show "fst (ProcessNextAbstract st iID) = Some (iID + 1)" by (simp add: v)
  show "imp_strIndex (snd (ProcessNextAbstract st iID))
            = imp_strIndex st @ [index_line iID (strip (fst (readline r1))) sTitle]"
    by (simp add: v)
  show "imp_strOut (snd (ProcessNextAbstract st iID))
            = imp_strOut st @ [corpus_line iID (strip (fst (readline (snd (readline r1)))))]"
    by (simp add: v)
next
  assume a: "read_title (imp_strIn st) = (Some sTitle, r1)
        \<and> (strip (fst (readline r1)) = [] \<or> strip (fst (readline (snd (readline r1)))) = [])"
  then have d: "fst (ProcessNextAbstract st iID) = Some iID
       \<and> imp_strIndex (snd (ProcessNextAbstract st iID)) = imp_strIndex st
       \<and> imp_strOut (snd (ProcessNextAbstract st iID)) = imp_strOut st
       \<and> length (imp_stderr (snd (ProcessNextAbstract st iID))) = length (imp_stderr st) + 1"
    using ProcessNextAbstract_dropped[of st sTitle r1 iID] by blast
  show "fst (ProcessNextAbstract st iID) = Some iID" using d by simp
  show "imp_strIndex (snd (ProcessNextAbstract st iID)) = imp_strIndex st" using d by simp
  show "imp_strOut (snd (ProcessNextAbstract st iID)) = imp_strOut st" using d by simp
  show "length (imp_stderr (snd (ProcessNextAbstract st iID))) = length (imp_stderr st) + 1"
    using d by simp
next
  assume "1 \<le> iID"
  then show "\<exists>recs. imp_strIndex (main_loop st iID)
                  = imp_strIndex st
                    @ map (\<lambda>(k, a, t, x). index_line (iID + int k) a t) (enumerate 0 recs)
              \<and> imp_strOut (main_loop st iID)
                  = imp_strOut st
                    @ map (\<lambda>(k, a, t, x). corpus_line (iID + int k) x) (enumerate 0 recs)"
    by (rule main_loop_ids)
qed

text \<open>
  C8 as stated fails on an index file whose last line does not carry its maximum ID: the
  importer continues from the last line (3, so the next ID is 4), not from the maximum
  (5).
\<close>

theorem C8_last_line_not_maximum_counterexample:
  "GetCmdLineParameters_iID decimal
     (IndexLines [index_line 5 ''Curie'' ''Radium'', index_line 3 ''Bohr'' ''Atoms'']) = Inr 4
   \<and> Max (set (map (\<lambda>l. the (decimal (hd (split_on (CHR 0x09) l))))
                 [index_line 5 ''Curie'' ''Radium'', index_line 3 ''Bohr'' ''Atoms''])) + 1 = 6"
  by code_simp

theorem C8_sequential_ids_witness:
  "GetCmdLineParameters_iID decimal
     (IndexLines [index_line 41 ''Curie'' ''Radium'', index_line 42 ''Bohr'' ''Atoms'']) = Inr 43
   \<and> fst (ProcessNextAbstract
        \<lparr>imp_strIn = [''Title one\<newline>'', ''\<newline>'', ''Text one\<newline>'', ''\<newline>'',
                      ''Title two\<newline>'', ''Auth two\<newline>'', ''Text two\<newline>''],
         imp_strOut = [], imp_strIndex = [], imp_stderr = []\<rparr> 43) = Some 43
   \<and> imp_strIndex (snd (ProcessNextAbstract
        \<lparr>imp_strIn = [''Title one\<newline>'', ''\<newline>'', ''Text one\<newline>'', ''\<newline>'',
                      ''Title two\<newline>'', ''Auth two\<newline>'', ''Text two\<newline>''],
         imp_strOut = [], imp_strIndex = [], imp_stderr = []\<rparr> 43)) = []
   \<and> fst (ProcessNextAbstract
        \<lparr>imp_strIn = [''\<newline>'', ''Title two\<newline>'', ''Auth two\<newline>'', ''Text two\<newline>''],
         imp_strOut = [], imp_strIndex = [], imp_stderr = []\<rparr> 43) = Some 44
   \<and> imp_strIndex (snd (ProcessNextAbstract
        \<lparr>imp_strIn = [''\<newline>'', ''Title two\<newline>'', ''Auth two\<newline>'', ''Text two\<newline>''],
         imp_strOut = [], imp_strIndex = [], imp_stderr = []\<rparr> 43))
       = [index_line 43 ''Auth two'' ''Title two'']
   \<and> imp_strIndex (main_loop
        \<lparr>imp_strIn = [''Title one\<newline>'', ''\<newline>'', ''Text one\<newline>'', ''\<newline>'',
                      ''Title two\<newline>'', ''Auth two\<newline>'', ''Text two\<newline>''],
         imp_strOut = [], imp_strIndex = [], imp_stderr = []\<rparr> 43)
       = [index_line 43 ''Auth two'' ''Title two'']"
proof -
  let ?ix = "[index_line 41 ''Curie'' ''Radium'', index_line 42 ''Bohr'' ''Atoms'']"
  let ?in0 = "[''Title one\<newline>'', ''\<newline>'', ''Text one\<newline>'', ''\<newline>'',
                      ''Title two\<newline>'', ''Auth two\<newline>'', ''Text two\<newline>'']"
  let ?in1 = "[''\<newline>'', ''Title two\<newline>'', ''Auth two\<newline>'', ''Text two\<newline>'']"
  let ?st0 = "\<lparr>imp_strIn = ?in0, imp_strOut = [], imp_strIndex = [], imp_stderr = []\<rparr>"
  let ?st1 = "\<lparr>imp_strIn = ?in1, imp_strOut = [], imp_strIndex = [], imp_stderr = []\<rparr>"
  let ?r0 = "[''\<newline>'', ''Text one\<newline>'', ''\<newline>'', ''Title two\<newline>'', ''Auth two\<newline>'', ''Text two\<newline>'']"
  let ?r1 = "[''Auth two\<newline>'', ''Text two\<newline>'']"
  have a1: "?ix \<noteq> [] \<and> decimal (hd (split_on (CHR 0x09) (last ?ix))) = Some 42"
    by code_simp
  have g: "GetCmdLineParameters_iID decimal (IndexLines ?ix) = Inr 43"
    using mp[OF conjunct1[OF conjunct2[OF C8_sequential_ids[where py_int = decimal
                and strIndex = ?ix and n = 42]]] a1]
    by simp
  have a2: "read_title (imp_strIn ?st0) = (Some ''Title one'', ?r0)
        \<and> (strip (fst (readline ?r0)) = [] \<or> strip (fst (readline (snd (readline ?r0)))) = [])"
    by code_simp
  note d = mp[OF conjunct1[OF conjunct2[OF conjunct2[OF conjunct2[OF
              C8_sequential_ids[where st = ?st0 and sTitle = "''Title one''" and ?r1.0 = ?r0
                 and iID = 43]]]]] a2]
  have a3: "read_title (imp_strIn ?st1) = (Some ''Title two'', ?r1)
        \<and> strip (fst (readline ?r1)) \<noteq> []
        \<and> strip (fst (readline (snd (readline ?r1)))) \<noteq> []"
    by code_simp
  note v = mp[OF conjunct1[OF conjunct2[OF conjunct2[OF
              C8_sequential_ids[where st = ?st1 and sTitle = "''Title two''" and ?r1.0 = ?r1
                 and iID = 43]]]] a3]
  have s: "strip (fst (readline ?r1)) = ''Auth two''" by code_simp
  have m: "imp_strIndex (main_loop ?st0 43) = [index_line 43 ''Auth two'' ''Title two'']"
    by code_simp
  from d have d1: "fst (ProcessNextAbstract ?st0 43) = Some 43"
    and d2: "imp_strIndex (snd (ProcessNextAbstract ?st0 43)) = []" by simp_all
  from v have v1: "fst (ProcessNextAbstract ?st1 43) = Some 44"
    and v2: "imp_strIndex (snd (ProcessNextAbstract ?st1 43))
               = [index_line 43 ''Auth two'' ''Title two'']"
    unfolding s by simp_all
  show ?thesis
    by (intro conjI) (rule g, rule d1, rule d2, rule v1, rule v2, rule m)
qed

section \<open>Sampling by a running file counter\<close>

lemma every_append: "every d c (xs @ ys) = every d c xs @ every d (c + int (length xs)) ys"
  by (induction xs arbitrary: c) (auto simp: algebra_simps)

lemma every_none: "0 \<le> c \<Longrightarrow> c + int (length xs) < d \<Longrightarrow> every d c xs = []"
  by (induction xs arbitrary: c) auto

lemma every_period: "every d (c + d) xs = every d c xs"
proof (induction xs arbitrary: c)
  case Nil
  then show ?case by simp
next
  case (Cons x xs)
  have "(c + d + 1) mod d = (c + 1) mod d"
    by (metis add.assoc add.commute mod_add_self2)
  moreover have "every d (c + d + 1) xs = every d (c + 1) xs"
    using Cons.IH[of "c + 1"] by (simp add: algebra_simps)
  ultimately show ?case by simp
qed

lemma every_block:
  "0 \<le> c \<Longrightarrow> ys \<noteq> [] \<Longrightarrow> c + int (length ys) = d \<Longrightarrow>
     every d c (ys @ zs) = last ys # every d 0 zs"
proof (induction ys arbitrary: c)
  case Nil
  then show ?case by simp
next
  case (Cons y ys)
  show ?case
  proof (cases "ys = []")
    case True
    with Cons.prems have "c + 1 = d" by simp
    then show ?thesis using True every_period[of d 0 zs] by simp
  next
    case False
    with Cons.prems have "0 < c + 1" "c + 1 < d" by auto
    then have "(c + 1) mod d \<noteq> 0" by simp
    moreover have "every d (c + 1) (ys @ zs) = last ys # every d 0 zs"
      using Cons.prems False by (intro Cons.IH) auto
    ultimately show ?thesis using False by simp
  qed
qed

lemma every_nth:
  "0 < d \<Longrightarrow> length xs div d = n \<Longrightarrow>
     every (int d) 0 xs = map (\<lambda>k. xs ! (d * k + (d - 1))) [0..<n]"
proof (induction n arbitrary: xs)
  case 0
  then have "length xs < d" by (simp add: div_eq_0_iff)
  then show ?case by (simp add: every_none)
next
  case (Suc n)
  then have len: "d \<le> length xs"
    by (metis div_less not_less Zero_not_Suc)
  let ?ys = "take d xs" and ?zs = "drop d xs"
  have ly: "length ?ys = d" using len by simp
  have ne: "?ys \<noteq> []" using ly Suc.prems(1) by auto
  have "every (int d) 0 (?ys @ ?zs) = last ?ys # every (int d) 0 ?zs"
    using ly ne by (intro every_block) auto
  moreover have "last ?ys = xs ! (d - 1)"
    using ly ne len Suc.prems(1) by (simp add: last_conv_nth)
  moreover have "length ?zs div d = n"
    using Suc.prems len le_div_geq[of d "length xs"] by simp
  then have "every (int d) 0 ?zs = map (\<lambda>k. ?zs ! (d * k + (d - 1))) [0..<n]"
    using Suc.prems(1) by (intro Suc.IH)
  moreover have "map (\<lambda>k. ?zs ! (d * k + (d - 1))) [0..<n]
                  = map (\<lambda>k. xs ! (d * Suc k + (d - 1))) [0..<n]"
  proof (rule map_cong[OF refl])
    fix k assume "k \<in> set [0..<n]"
    then have "k < n" by simp
    have "d * k + (d - 1) < length ?zs"
    proof -
      have "Suc k \<le> n" using \<open>k < n\<close> by simp
      then have "d * Suc k \<le> d * n" by (rule mult_le_mono2)
      moreover have "d * n \<le> length ?zs"
        using \<open>length ?zs div d = n\<close> by (metis mult.commute div_times_less_eq_dividend)
      ultimately show ?thesis using Suc.prems(1) by simp
    qed
    then show "?zs ! (d * k + (d - 1)) = xs ! (d * Suc k + (d - 1))"
      using len by (simp add: algebra_simps)
  qed
  moreover have "map (\<lambda>k. xs ! (d * k + (d - 1))) [0..<Suc n]
                  = xs ! (d - 1) # map (\<lambda>k. xs ! (d * Suc k + (d - 1))) [0..<n]"
    by (simp add: upt_conv_Cons map_Suc_upt[symmetric] del: upt_Suc)
  ultimately show ?case by simp
qed

lemma ps_files_sample:
  assumes "d \<noteq> 0" and "list_all (abstract_ok py_int) fl"
  shows "\<exists>st'. ps_files py_int findall [0] d n m sub fl st = Inr st'
           \<and> ps_strOut st' = ps_strOut st
                @ map (sample_line py_int findall) (every d (iFilesInAll st) fl)
           \<and> iFilesInAll st' = iFilesInAll st + int (length fl)
           \<and> iProcessed st' = iProcessed st + int (length (every d (iFilesInAll st) fl))"
  using assms(2)
proof (induction fl arbitrary: st)
  case Nil
  then show ?case by simp
next
  case (Cons x fl)
  from Cons.prems have ok: "abstract_ok py_int x" and rest: "list_all (abstract_ok py_int) fl"
    by simp_all
  from ok obtain raw k where x: "snd x = Text raw" "strip (lower raw) \<noteq> []"
    "py_int (lstrip_PMID (fst x)) = Some k"
    by (auto simp: abstract_ok_def split: file_state.splits)
  define st1 where "st1 = st\<lparr>iFilesInAll := iFilesInAll st + 1\<rparr>"
  define st2 where "st2 = (if iFilesInAll st1 mod 1000 = 0
                 then st1\<lparr>ps_stderr := ps_stderr st1 @
                        [Progress n m (iFilesInAll st1) (iProcessed st1)]\<rparr>
                 else st1)"
  have s2: "iFilesInAll st2 = iFilesInAll st + 1" "ps_strOut st2 = ps_strOut st"
    "iProcessed st2 = iProcessed st"
    by (simp_all add: st2_def st1_def)
  show ?case
  proof (cases "(iFilesInAll st + 1) mod d = 0")
    case True
    define st4 where "st4 = st2\<lparr>iProcessed := iProcessed st2 + 1,
        ps_strOut := ps_strOut st2 @ [sample_line py_int findall x]\<rparr>"
    have step: "ps_files py_int findall [0] d n m sub (x # fl) st
                  = ps_files py_int findall [0] d n m sub fl st4"
      using True assms(1) x s2
      by (simp add: Let_def st1_def[symmetric] st2_def[symmetric] st4_def sample_line_def)
    from Cons.IH[OF rest, of st4] obtain st' where
      "ps_files py_int findall [0] d n m sub fl st4 = Inr st'"
      "ps_strOut st' = ps_strOut st4 @ map (sample_line py_int findall) (every d (iFilesInAll st4) fl)"
      "iFilesInAll st' = iFilesInAll st4 + int (length fl)"
      "iProcessed st' = iProcessed st4 + int (length (every d (iFilesInAll st4) fl))"
      by blast
    then show ?thesis
      unfolding step using True s2 by (simp add: st4_def)
  next
    case False
    have step: "ps_files py_int findall [0] d n m sub (x # fl) st
                  = ps_files py_int findall [0] d n m sub fl st2"
      using False assms(1) s2
      by (simp add: Let_def st1_def[symmetric] st2_def[symmetric])
    from Cons.IH[OF rest, of st2] obtain st' where
      "ps_files py_int findall [0] d n m sub fl st2 = Inr st'"
      "ps_strOut st' = ps_strOut st2 @ map (sample_line py_int findall) (every d (iFilesInAll st2) fl)"
      "iFilesInAll st' = iFilesInAll st2 + int (length fl)"
      "iProcessed st' = iProcessed st2 + int (length (every d (iFilesInAll st2) fl))"
      by blast
    then show ?thesis
      unfolding step using False s2 by simp
  qed
qed

lemma sorted_files_ok:
  assumes "snd dir = Some txts" and "list_all (abstract_ok py_int) txts"
  shows "\<not> list_ex (\<lambda>x. py_int (lstrip_PMID (fst x)) = None) txts"
    and "list_all (abstract_ok py_int) (sorted_files py_int dir)"
    and "sorted_files py_int dir = sort_key (\<lambda>x. the (py_int (lstrip_PMID (fst x)))) txts"
  using assms by (auto simp: list_all_iff list_ex_iff abstract_ok_def sorted_files_def)

lemma ps_dirs_sample:
  assumes "d \<noteq> 0" and "tree_ok py_int ds"
  shows "\<exists>st'. ps_dirs py_int findall [0] d n m ds st = Inr st'
           \<and> ps_strOut st' = ps_strOut st
                @ map (sample_line py_int findall)
                    (every d (iFilesInAll st) (concat (map (sorted_files py_int) ds)))
           \<and> iFilesInAll st' = iFilesInAll st + int (length (concat (map (sorted_files py_int) ds)))
           \<and> iProcessed st' = iProcessed st
                + int (length (every d (iFilesInAll st) (concat (map (sorted_files py_int) ds))))"
  using assms(2)
proof (induction ds arbitrary: st n)
  case Nil
  then show ?case by simp
next
  case (Cons dir ds)
  from Cons.prems obtain txts where t: "snd dir = Some txts"
    and ok: "list_all (abstract_ok py_int) txts" and rest: "tree_ok py_int ds"
    by (auto simp: tree_ok_def split: option.splits)
  note sf = sorted_files_ok[OF t ok]
  from ps_files_sample[OF assms(1) sf(2), of findall n m "fst dir" st]
  obtain st1 where
    f: "ps_files py_int findall [0] d n m (fst dir) (sorted_files py_int dir) st = Inr st1"
    and f1: "ps_strOut st1 = ps_strOut st
                @ map (sample_line py_int findall) (every d (iFilesInAll st) (sorted_files py_int dir))"
    and f2: "iFilesInAll st1 = iFilesInAll st + int (length (sorted_files py_int dir))"
    and f3: "iProcessed st1 = iProcessed st
                + int (length (every d (iFilesInAll st) (sorted_files py_int dir)))"
    by blast
  from Cons.IH[OF rest, of "n + 1" st1]
  obtain st' where
    g: "ps_dirs py_int findall [0] d (n + 1) m ds st1 = Inr st'"
    and g1: "ps_strOut st' = ps_strOut st1
                @ map (sample_line py_int findall)
                    (every d (iFilesInAll st1) (concat (map (sorted_files py_int) ds)))"
    and g2: "iFilesInAll st' = iFilesInAll st1 + int (length (concat (map (sorted_files py_int) ds)))"
    and g3: "iProcessed st' = iProcessed st1
                + int (length (every d (iFilesInAll st1) (concat (map (sorted_files py_int) ds))))"
    by blast
  have run: "ps_dirs py_int findall [0] d n m (dir # ds) st = Inr st'"
    using t sf(1) f g by (simp add: Let_def sf(3)[symmetric])
  show ?case
    unfolding run using f1 f2 f3 g1 g2 g3
    by (simp add: every_append)
qed

lemma tree_ok_sort: "tree_ok py_int (sort_key f dirs) = tree_ok py_int dirs"
  by (simp add: tree_ok_def list_all_iff)

text \<open>
  C9. Let every directory of the tree be listable and every file a well-formed abstract
  file (its stem has a number and its text is not blank), 10,000 files in all. With
  numerator 1 and denominator 1000, \<open>build_subset\<close> returns normally and has written
  exactly ten lines: those of the files at the positions 1000, 2000, ..., 10000 of the
  global traversal order (directories by name, files by number within a directory), in
  this order. The counter \<open>iProcessed\<close> is 10.
\<close>

theorem C9_one_in_thousand:
  assumes "tree_ok py_int dirs" and "length (traversal py_int dirs) = 10000"
  shows "\<exists>st. build_subset py_int findall (Some dirs) 1 1000 = Inr st
           \<and> ps_strOut st = map (\<lambda>k. sample_line py_int findall
                                         (traversal py_int dirs ! (1000 * k + 999))) [0..<10]
           \<and> iProcessed st = 10"
proof -
  let ?st0 = "\<lparr>ps_strOut = [], ps_stderr = [], iFilesInAll = 0, iProcessed = 0\<rparr>"
  let ?ds = "sort_key fst dirs"
  have iv: "Intervals 1 1000 = [0]" by (simp add: Intervals_def upto.simps)
  have ok: "tree_ok py_int ?ds" using assms(1) by (simp add: tree_ok_sort)
  from ps_dirs_sample[OF _ ok, of 1000 findall 1 "int (length ?ds)" ?st0]
  obtain st' where
    r: "ps_dirs py_int findall [0] 1000 1 (int (length ?ds)) ?ds ?st0 = Inr st'"
    and o: "ps_strOut st' = map (sample_line py_int findall)
                             (every 1000 0 (traversal py_int dirs))"
    and p: "iProcessed st' = int (length (every 1000 0 (traversal py_int dirs)))"
    by (auto simp: traversal_def)
  have e: "every 1000 0 (traversal py_int dirs)
             = map (\<lambda>k. traversal py_int dirs ! (1000 * k + 999)) [0..<10]"
    using every_nth[of 1000 "traversal py_int dirs" 10] assms(2) by simp
  have b: "build_subset py_int findall (Some dirs) 1 1000
             = Inr (st'\<lparr>ps_stderr := ps_stderr st' @ [FinalNewline]\<rparr>)"
    using r by (simp add: build_subset_def iv Let_def)
  show ?thesis
    unfolding b using o p by (simp add: e comp_def)
qed

lemma digits_of_digits:
  "digits_of n \<noteq> [] \<and> list_all (\<lambda>c. c \<in> set ''0123456789'') (digits_of n)"
proof (induction n rule: digits_of.induct)
  case (1 n)
  show ?case
  proof (cases "n < 10")
    case True
    then have "''0123456789'' ! n \<in> set ''0123456789''" by (intro nth_mem) simp
    with True show ?thesis by (simp add: digits_of.simps[of n])
  next
    case False
    have "n mod 10 < 10" by simp
    then have "''0123456789'' ! (n mod 10) \<in> set ''0123456789''" by (intro nth_mem) simp
    with False 1 show ?thesis by (simp add: digits_of.simps[of n])
  qed
qed

lemma stem_number: "decimal (lstrip_PMID (''PMID'' @ digits_of n)) \<noteq> None"
proof -
  from digits_of_digits[of n] obtain c cs where d: "digits_of n = c # cs"
    and a: "list_all (\<lambda>c. c \<in> set ''0123456789'') (c # cs)"
    by (cases "digits_of n") auto
  then have "c \<in> set ''0123456789''" by simp
  then have "c \<notin> set ''PMID''" by auto
  then have "lstrip_PMID (''PMID'' @ digits_of n) = digits_of n"
    by (simp add: lstrip_PMID_def d)
  then show ?thesis using a d by (simp add: decimal_def)
qed

theorem C9_one_in_thousand_witness:
  "tree_ok decimal
     [(''0001'', Some [(''PMID10000'', Text ''Ten thousandth abstract.\<newline>'')]),
      (''0000'', Some (map (\<lambda>n. (''PMID'' @ digits_of n, Text ''An abstract.\<newline>'')) [1..<10000]))]
   \<and> length (traversal decimal
     [(''0001'', Some [(''PMID10000'', Text ''Ten thousandth abstract.\<newline>'')]),
      (''0000'', Some (map (\<lambda>n. (''PMID'' @ digits_of n, Text ''An abstract.\<newline>'')) [1..<10000]))])
       = 10000
   \<and> (\<exists>st. build_subset decimal split_ws
        (Some [(''0001'', Some [(''PMID10000'', Text ''Ten thousandth abstract.\<newline>'')]),
               (''0000'', Some (map (\<lambda>n. (''PMID'' @ digits_of n, Text ''An abstract.\<newline>''))
                                  [1..<10000]))]) 1 1000 = Inr st
          \<and> length (ps_strOut st) = 10 \<and> iProcessed st = 10)"
proof -
  define d1 :: "string \<times> (string \<times> file_state) list option"
    where "d1 = (''0001'', Some [(''PMID10000'', Text ''Ten thousandth abstract.\<newline>'')])"
  define d0 :: "string \<times> (string \<times> file_state) list option"
    where "d0 = (''0000'', Some (map (\<lambda>n. (''PMID'' @ digits_of n, Text ''An abstract.\<newline>''))
                                  [1..<10000]))"
  have t1: "strip (lower ''An abstract.\<newline>'') \<noteq> []"
    and t2: "strip (lower ''Ten thousandth abstract.\<newline>'') \<noteq> []"
    and n1: "decimal (lstrip_PMID ''PMID10000'') \<noteq> None"
    by code_simp+
  have h1: "tree_ok decimal [d1, d0]"
    using t1 t2 n1 stem_number
    by (simp add: tree_ok_def d1_def d0_def abstract_ok_def list_all_iff del: not_None_eq)
  have le: "(''0000''::string) \<le> ''0001''" by code_simp
  have ne: "\<not> (''0001''::string) \<le> ''0000''" by code_simp
  have so: "sort_key fst [d1, d0] = [d0, d1]"
    using le ne by (simp add: d1_def d0_def)
  have h2: "length (traversal decimal [d1, d0]) = 10000"
    unfolding traversal_def so by (simp add: sorted_files_def d1_def d0_def)
  from C9_one_in_thousand[OF h1 h2, of split_ws]
  obtain st where "build_subset decimal split_ws (Some [d1, d0]) 1 1000 = Inr st"
    and "ps_strOut st = map (\<lambda>k. sample_line decimal split_ws
                                         (traversal decimal [d1, d0] ! (1000 * k + 999))) [0..<10]"
    and "iProcessed st = 10"
    by blast
  then have "\<exists>st. build_subset decimal split_ws (Some [d1, d0]) 1 1000 = Inr st
          \<and> length (ps_strOut st) = 10 \<and> iProcessed st = 10"
    by auto
  with h1 h2 show ?thesis unfolding d1_def d0_def by blast
qed

end
